theory Spec2Isabelle
  imports Main "HOL-Library.Word"
begin

section \<open>flutes/io.py: reverse line reading, progress reading, output suppression\<close>

text \<open>
  A shallow embedding of \<^verbatim>\<open>src/flutes/io.py\<close>. Python \<^verbatim>\<open>bytes\<close> are lists of
  8-bit words, Python \<^verbatim>\<open>str\<close> values are lists of Unicode code points (natural numbers),
  Python integers are \<^typ>\<open>int\<close>. Exceptions are values of the type \<open>error\<close>.
\<close>

type_synonym byte = "8 word"
type_synonym str = "nat list"

datatype error =
    UnicodeDecodeError
  | IndexError
  | ValueError
  | FileNotFoundError
  | FileExistsError
  | OSError
  | StopIteration
  | TypeError

subsection \<open>The strict UTF-8 codec behind \<^verbatim>\<open>bytes.decode('utf-8')\<close>\<close>

text \<open>
  \<^verbatim>\<open>buffer_bytes.decode(encoding)\<close> with the default encoding and the default error
  handler \<^verbatim>\<open>'strict'\<close>: well-formed UTF-8 only (no overlong forms, no surrogates,
  nothing above U+10FFFF); anything else raises \<^verbatim>\<open>UnicodeDecodeError\<close>, modelled
  as \<open>None\<close>.
\<close>

definition is_cont :: "byte \<Rightarrow> bool" where
  "is_cont b \<longleftrightarrow> 0x80 \<le> b \<and> b \<le> 0xBF"

definition cont_bits :: "byte \<Rightarrow> nat" where
  "cont_bits b = unat b - 0x80"

text \<open>The first character of a byte string: its code point and its width in bytes.\<close>

fun utf8_char :: "byte list \<Rightarrow> (nat \<times> nat) option" where
  "utf8_char [] = None"
| "utf8_char (b0 # bs) =
     (if b0 < 0x80 then Some (unat b0, 1)
      else if 0xC2 \<le> b0 \<and> b0 \<le> 0xDF then
        (case bs of
           b1 # _ \<Rightarrow>
             if is_cont b1 then Some ((unat b0 - 0xC0) * 64 + cont_bits b1, 2) else None
         | _ \<Rightarrow> None)
      else if 0xE0 \<le> b0 \<and> b0 \<le> 0xEF then
        (case bs of
           b1 # b2 # _ \<Rightarrow>
             (let cp = ((unat b0 - 0xE0) * 64 + cont_bits b1) * 64 + cont_bits b2
              in if is_cont b1 \<and> is_cont b2 \<and> 0x800 \<le> cp \<and> \<not> (0xD800 \<le> cp \<and> cp \<le> 0xDFFF)
                 then Some (cp, 3) else None)
         | _ \<Rightarrow> None)
      else if 0xF0 \<le> b0 \<and> b0 \<le> 0xF4 then
        (case bs of
           b1 # b2 # b3 # _ \<Rightarrow>
             (let cp = (((unat b0 - 0xF0) * 64 + cont_bits b1) * 64 + cont_bits b2) * 64
                        + cont_bits b3
              in if is_cont b1 \<and> is_cont b2 \<and> is_cont b3 \<and> 0x10000 \<le> cp \<and> cp \<le> 0x10FFFF
                 then Some (cp, 4) else None)
         | _ \<Rightarrow> None)
      else None)"

fun utf8_decode :: "byte list \<Rightarrow> str option" where
  "utf8_decode [] = Some []"
| "utf8_decode (b0 # bs) =
     (case utf8_char (b0 # bs) of
        None \<Rightarrow> None
      | Some (cp, n) \<Rightarrow> map_option ((#) cp) (utf8_decode (drop (n - 1) bs)))"

subsection \<open>\<^verbatim>\<open>str.split('\n')\<close>\<close>

definition NL :: nat where
  "NL = 10"

fun split :: "str \<Rightarrow> str list" where
  "split [] = [[]]"
| "split (c # cs) =
     (if c = NL then [] # split cs
      else (c # hd (split cs)) # tl (split cs))"

subsection \<open>\<^verbatim>\<open>_ReverseReadlineFile.generator\<close>\<close>

definition MAX_CHAR_BYTES :: nat where
  "MAX_CHAR_BYTES = 4"

text \<open>
  \<^verbatim>\<open>fp.seek(pos); fp.read(n)\<close> on a binary file with contents \<open>file\<close>. A negative
  \<open>n\<close> reads to the end of the file. The generator only seeks to
  \<^verbatim>\<open>file_size - offset\<close> with \<^verbatim>\<open>offset <= file_size\<close>, so \<open>pos\<close> is never negative there.
\<close>

definition read_at :: "byte list \<Rightarrow> int \<Rightarrow> int \<Rightarrow> byte list" where
  "read_at file pos n =
     (if n < 0 then drop (nat pos) file else take (nat n) (drop (nat pos) file))"

text \<open>
  The inner \<^verbatim>\<open>while True\<close> loop (lines 146-157). \<open>trials\<close> is the counter before its
  increment at the top of the loop body; the result is the decoded buffer with the
  updated \<^verbatim>\<open>cur_buf_size\<close> and \<^verbatim>\<open>offset\<close>, or the decode error re-raised.
\<close>

function decode_retry ::
  "(byte list \<Rightarrow> str option) \<Rightarrow> nat \<Rightarrow> byte list \<Rightarrow> int \<Rightarrow> int \<Rightarrow> error + (str \<times> int \<times> int)"
where
  "decode_retry encoding trials buffer_bytes cur_buf_size offset =
     (case encoding buffer_bytes of
        Some buffer \<Rightarrow> Inr (buffer, cur_buf_size, offset)
      | None \<Rightarrow>
          if Suc trials \<ge> MAX_CHAR_BYTES then Inl UnicodeDecodeError
          else decode_retry encoding (Suc trials) (drop 1 buffer_bytes)
                 (cur_buf_size - 1) (offset - 1))"
  by pat_completeness auto
termination
  by (relation "measure (\<lambda>(e, t, b, c, off). MAX_CHAR_BYTES - t)") (auto simp: MAX_CHAR_BYTES_def)

declare decode_retry.simps [simp del]

text \<open>The generator's local variables, and the lines it has yielded so far.\<close>

record gen_state =
  segment :: "str option"
  offset :: int
  remaining_size :: int
  yielded :: "str list"

text \<open>
  The \<^verbatim>\<open>for index in range(len(lines) - 1, 0, -1)\<close> loop (lines 174-176), started at
  \<open>index = len(lines) - 1\<close>: the lines it yields, in order.
\<close>

fun yield_lines :: "bool \<Rightarrow> str list \<Rightarrow> nat \<Rightarrow> str list" where
  "yield_lines allow_empty_lines lines 0 = []"
| "yield_lines allow_empty_lines lines (Suc i) =
     (if allow_empty_lines \<or> length (lines ! Suc i) > 0 then [lines ! Suc i] else [])
     @ yield_lines allow_empty_lines lines i"

text \<open>The bytes read at the top of one pass of the outer loop (lines 141-144).\<close>

definition chunk_offset :: "int \<Rightarrow> byte list \<Rightarrow> gen_state \<Rightarrow> int" where
  "chunk_offset buf_size file st = min (int (length file)) (offset st + buf_size)"

definition chunk_bytes :: "int \<Rightarrow> byte list \<Rightarrow> gen_state \<Rightarrow> byte list" where
  "chunk_bytes buf_size file st =
     read_at file (int (length file) - chunk_offset buf_size file st)
       (min (remaining_size st) buf_size)"

text \<open>
  One pass of the outer \<^verbatim>\<open>while remaining_size > 0\<close> loop (lines 141-176). Both
  exceptions of the body (the re-raised decode error, and \<^verbatim>\<open>buffer[-1]\<close> on an empty
  buffer) are raised before the pass yields anything.
\<close>

definition iteration ::
  "(byte list \<Rightarrow> str option) \<Rightarrow> bool \<Rightarrow> int \<Rightarrow> byte list \<Rightarrow> gen_state \<Rightarrow> error + gen_state"
where
  "iteration encoding allow_empty_lines buf_size file st =
     (case decode_retry encoding 0 (chunk_bytes buf_size file st) buf_size
             (chunk_offset buf_size file st) of
        Inl e \<Rightarrow> Inl e
      | Inr (buffer, cur_buf_size, offset') \<Rightarrow>
          (let remaining' = remaining_size st - cur_buf_size;
               lines = split buffer
           in case segment st of
                None \<Rightarrow>
                  Inr \<lparr>segment = Some (lines ! 0), offset = offset',
                       remaining_size = remaining',
                       yielded = yielded st
                         @ yield_lines allow_empty_lines lines (length lines - 1)\<rparr>
              | Some seg \<Rightarrow>
                  if buffer = [] then Inl IndexError
                  else if last buffer \<noteq> NL then
                    (let lines' = lines[length lines - 1 := lines ! (length lines - 1) @ seg]
                     in Inr \<lparr>segment = Some (lines' ! 0), offset = offset',
                             remaining_size = remaining',
                             yielded = yielded st
                               @ yield_lines allow_empty_lines lines' (length lines' - 1)\<rparr>)
                  else
                    Inr \<lparr>segment = Some (lines ! 0), offset = offset',
                         remaining_size = remaining',
                         yielded = yielded st @ [seg]
                           @ yield_lines allow_empty_lines lines (length lines - 1)\<rparr>))"

text \<open>
  The outer loop and the final flush (lines 140-179). The result is the list of lines
  yielded, in order, and the exception that ended the generator, if any. A run that never
  ends is \<open>None\<close>.
\<close>

partial_function (option) gen_loop ::
  "(byte list \<Rightarrow> str option) \<Rightarrow> bool \<Rightarrow> int \<Rightarrow> byte list \<Rightarrow> gen_state
     \<Rightarrow> (str list \<times> error option) option"
where
  "gen_loop encoding allow_empty_lines buf_size file st =
     (if remaining_size st > 0 then
        (case iteration encoding allow_empty_lines buf_size file st of
           Inl e \<Rightarrow> Some (yielded st, Some e)
         | Inr st' \<Rightarrow> gen_loop encoding allow_empty_lines buf_size file st')
      else
        Some (yielded st @ (case segment st of None \<Rightarrow> [] | Some seg \<Rightarrow> [seg]), None))"

definition generator ::
  "(byte list \<Rightarrow> str option) \<Rightarrow> bool \<Rightarrow> int \<Rightarrow> byte list \<Rightarrow> (str list \<times> error option) option"
where
  "generator encoding allow_empty_lines buf_size file =
     gen_loop encoding allow_empty_lines buf_size file
       \<lparr>segment = None, offset = 0, remaining_size = int (length file), yielded = []\<rparr>"

declare gen_loop.simps [code]

text \<open>The lines of a list that are not empty.\<close>

definition nonempty_lines :: "str list \<Rightarrow> str list" where
  "nonempty_lines ls = filter (\<lambda>l. l \<noteq> []) ls"

text \<open>
  The loop invariant of the generator on a well-formed file \<open>P @ S\<close>: the suffix \<open>S\<close>
  has been consumed and decodes to \<open>s\<close>, the prefix \<open>P\<close> is still to be read.
\<close>

definition gen_inv :: "byte list \<Rightarrow> byte list \<Rightarrow> str \<Rightarrow> gen_state \<Rightarrow> bool" where
  "gen_inv P S s st \<longleftrightarrow>
     offset st = int (length S) \<and> int (length P) = max 0 (remaining_size st) \<and>
     utf8_decode S = Some s \<and>
     (if S = [] then segment st = None \<and> yielded st = []
      else segment st = Some (hd (split s)) \<and>
           nonempty_lines (yielded st) = rev (nonempty_lines (tl (split s))))"

subsection \<open>The built-in \<^verbatim>\<open>open\<close> and the file system\<close>

text \<open>
  The file system maps a path to the contents of the file there. \<open>io_log\<close> records
  every \<^verbatim>\<open>open\<close> that reached the operating system. The built-in \<^verbatim>\<open>open(path, mode)\<close>
  checks the mode string first (\<^verbatim>\<open>ValueError\<close> on an invalid one, before any system
  call) and then opens, creates or truncates the file as the mode says.
\<close>

type_synonym path = string

datatype io_event = Opened path string

record world =
  files :: "path \<Rightarrow> byte list option"
  io_log :: "io_event list"

record handle =
  h_path :: path
  h_mode :: string
  h_data :: "byte list"

definition valid_mode :: "string \<Rightarrow> bool" where
  "valid_mode mode \<longleftrightarrow>
     set mode \<subseteq> set ''axrwb+t'' \<and> distinct mode \<and>
     length (filter (\<lambda>c. c \<in> set ''rwxa'') mode) = 1 \<and>
     \<not> (CHR ''t'' \<in> set mode \<and> CHR ''b'' \<in> set mode)"

definition builtin_open :: "world \<Rightarrow> path \<Rightarrow> string \<Rightarrow> (error + handle) \<times> world" where
  "builtin_open w p mode =
     (if \<not> valid_mode mode then (Inl ValueError, w)
      else
        (let w' = w\<lparr>io_log := io_log w @ [Opened p mode]\<rparr>;
             created = w'\<lparr>files := (files w)(p := Some [])\<rparr>
         in if CHR ''r'' \<in> set mode then
              (case files w p of
                 None \<Rightarrow> (Inl FileNotFoundError, w')
               | Some d \<Rightarrow> (Inr \<lparr>h_path = p, h_mode = mode, h_data = d\<rparr>, w'))
            else if CHR ''w'' \<in> set mode then
              (Inr \<lparr>h_path = p, h_mode = mode, h_data = []\<rparr>, created)
            else if CHR ''x'' \<in> set mode then
              (case files w p of
                 None \<Rightarrow> (Inr \<lparr>h_path = p, h_mode = mode, h_data = []\<rparr>, created)
               | Some d \<Rightarrow> (Inl FileExistsError, w'))
            else
              (case files w p of
                 None \<Rightarrow> (Inr \<lparr>h_path = p, h_mode = mode, h_data = []\<rparr>, created)
               | Some d \<Rightarrow> (Inr \<lparr>h_path = p, h_mode = mode, h_data = d\<rparr>, w'))))"

subsection \<open>\<^verbatim>\<open>_ReverseReadlineFile\<close> and \<^verbatim>\<open>reverse_open\<close>\<close>

text \<open>
  A generator object is represented by what it will still do: the lines it will yield, in
  order, and the exception that will end it (\<open>None\<close> for a normal return, after which
  \<^verbatim>\<open>next\<close> raises \<^verbatim>\<open>StopIteration\<close>). The outer \<open>option\<close> is \<open>None\<close> for a generator
  whose body never ends.
\<close>

type_synonym gen_obj = "(str list \<times> error option) option"

definition next_gen :: "gen_obj \<Rightarrow> ((error + str) \<times> gen_obj) option" where
  "next_gen g =
     (case g of
        None \<Rightarrow> None
      | Some (l # ls, e) \<Rightarrow> Some (Inr l, Some (ls, e))
      | Some ([], Some e) \<Rightarrow> Some (Inl e, Some ([], None))
      | Some ([], None) \<Rightarrow> Some (Inl StopIteration, Some ([], None)))"

record reverse_reader =
  rr_fp :: handle
  rr_fp_closed :: bool
  rr_gen :: gen_obj

text \<open>\<^verbatim>\<open>__next__\<close> (line 188-189) and \<^verbatim>\<open>readline\<close> (lines 197-198).\<close>

definition ReverseReadlineFile_next ::
  "reverse_reader \<Rightarrow> ((error + str) \<times> reverse_reader) option" where
  "ReverseReadlineFile_next r =
     (case next_gen (rr_gen r) of
        None \<Rightarrow> None
      | Some (Inl e, g) \<Rightarrow> Some (Inl e, r\<lparr>rr_gen := g\<rparr>)
      | Some (Inr l, g) \<Rightarrow> Some (Inr (l @ [NL]), r\<lparr>rr_gen := g\<rparr>))"

definition ReverseReadlineFile_readline ::
  "reverse_reader \<Rightarrow> ((error + str) \<times> reverse_reader) option" where
  "ReverseReadlineFile_readline r =
     (case next_gen (rr_gen r) of
        None \<Rightarrow> None
      | Some (Inl e, g) \<Rightarrow> Some (Inl e, r\<lparr>rr_gen := g\<rparr>)
      | Some (Inr l, g) \<Rightarrow> Some (Inr l, r\<lparr>rr_gen := g\<rparr>))"

definition ReverseReadlineFile_close :: "reverse_reader \<Rightarrow> reverse_reader" where
  "ReverseReadlineFile_close r = r\<lparr>rr_fp_closed := True\<rparr>"

text \<open>\<^verbatim>\<open>reverse_open\<close> (lines 204-221): the result, and the world after the call.\<close>

definition reverse_open ::
  "world \<Rightarrow> path \<Rightarrow> (byte list \<Rightarrow> str option) \<Rightarrow> bool \<Rightarrow> int
     \<Rightarrow> (error + reverse_reader) \<times> world"
where
  "reverse_open w p encoding allow_empty_lines buffer_size =
     (if buffer_size < int MAX_CHAR_BYTES then (Inl ValueError, w)
      else
        (case builtin_open w p ''rb'' of
           (Inl e, w') \<Rightarrow> (Inl e, w')
         | (Inr fp, w') \<Rightarrow>
             (Inr \<lparr>rr_fp = fp, rr_fp_closed = False,
                   rr_gen = generator encoding allow_empty_lines buffer_size (h_data fp)\<rparr>,
              w')))"

subsection \<open>The progress sink (\<^verbatim>\<open>tqdm\<close>)\<close>

text \<open>
  The progress bar is an external collaborator. It is modelled as the progress sink the
  specification describes: an accumulator with a position \<open>bar_n\<close> and a total, receiving
  relative advances (\<^verbatim>\<open>update\<close>), absolute position sets (assignment to \<^verbatim>\<open>n\<close>),
  redraw requests (\<^verbatim>\<open>refresh\<close>) and \<^verbatim>\<open>close\<close>. \<open>bar_log\<close> records the calls in order.
\<close>

datatype sink_event = Advance int | SetPosition int | Refresh | CloseSink

text \<open>The values of the keyword arguments forwarded to the bar, and their truth value.\<close>

datatype pyval = PyBool bool | PyInt int | PyStr string

fun truthy :: "pyval \<Rightarrow> bool" where
  "truthy (PyBool b) = b"
| "truthy (PyInt i) = (i \<noteq> 0)"
| "truthy (PyStr s) = (s \<noteq> [])"

record tqdm =
  bar_n :: int
  bar_total :: int
  bar_kwargs :: "string \<Rightarrow> pyval option"
  bar_closed :: bool
  bar_log :: "sink_event list"

text \<open>
  A bar made with a true \<^verbatim>\<open>disable\<close> argument, and a bar that has been closed, ignore
  \<^verbatim>\<open>update\<close>: the call is received (and logged here) and the position stays.
\<close>

definition tqdm_disabled :: "tqdm \<Rightarrow> bool" where
  "tqdm_disabled b \<longleftrightarrow>
     bar_closed b \<or> (case bar_kwargs b ''disable'' of None \<Rightarrow> False | Some v \<Rightarrow> truthy v)"

definition tqdm_update :: "tqdm \<Rightarrow> int \<Rightarrow> tqdm" where
  "tqdm_update b k =
     (if tqdm_disabled b then b\<lparr>bar_log := bar_log b @ [Advance k]\<rparr>
      else b\<lparr>bar_n := bar_n b + k, bar_log := bar_log b @ [Advance k]\<rparr>)"

text \<open>The sum of the relative advances the sink has received.\<close>

fun reported :: "sink_event list \<Rightarrow> int" where
  "reported [] = 0"
| "reported (Advance k # es) = k + reported es"
| "reported (e # es) = reported es"

definition tqdm_set_n :: "tqdm \<Rightarrow> int \<Rightarrow> tqdm" where
  "tqdm_set_n b v = b\<lparr>bar_n := v, bar_log := bar_log b @ [SetPosition v]\<rparr>"

definition tqdm_refresh :: "tqdm \<Rightarrow> tqdm" where
  "tqdm_refresh b = b\<lparr>bar_log := bar_log b @ [Refresh]\<rparr>"

definition tqdm_close :: "tqdm \<Rightarrow> tqdm" where
  "tqdm_close b =
     (if bar_closed b then b else b\<lparr>bar_closed := True, bar_log := bar_log b @ [CloseSink]\<rparr>)"

subsection \<open>\<^verbatim>\<open>io.BufferedReader\<close> over a regular file\<close>

text \<open>
  The superclass of \<^verbatim>\<open>_ProgressBufferedReader\<close>, over a raw file with contents
  \<open>raw_data\<close> and read position \<open>raw_pos\<close>. Every operation on a closed reader raises
  \<^verbatim>\<open>ValueError\<close>.
\<close>

record progress_reader =
  raw_data :: "byte list"
  raw_pos :: nat
  raw_closed :: bool
  bufsize :: int
  progress_bar :: tqdm

definition unread :: "progress_reader \<Rightarrow> byte list" where
  "unread r = drop (raw_pos r) (raw_data r)"

definition consume :: "progress_reader \<Rightarrow> byte list \<Rightarrow> progress_reader" where
  "consume r ret = r\<lparr>raw_pos := raw_pos r + length ret\<rparr>"

definition BufferedReader_read ::
  "progress_reader \<Rightarrow> int \<Rightarrow> (error + byte list) \<times> progress_reader" where
  "BufferedReader_read r sz =
     (if raw_closed r \<or> sz < - 1 then (Inl ValueError, r)
      else
        (let ret = (if sz = - 1 then unread r else take (nat sz) (unread r))
         in (Inr ret, consume r ret)))"

text \<open>
  \<^verbatim>\<open>read1\<close> returns what the internal buffer holds when it holds something, and makes
  one raw read otherwise. How many bytes the buffer holds depends on the calls before;
  it is the argument \<open>readahead\<close> here.
\<close>

definition BufferedReader_read1 ::
  "progress_reader \<Rightarrow> int \<Rightarrow> nat \<Rightarrow> (error + byte list) \<times> progress_reader" where
  "BufferedReader_read1 r sz readahead =
     (if raw_closed r then (Inl ValueError, r)
      else
        (let n = nat (if sz < 0 then bufsize r else sz);
             ret = take (if readahead > 0 then min n readahead else n) (unread r)
         in (Inr ret, consume r ret)))"

text \<open>\<^verbatim>\<open>readinto(b)\<close> fills a buffer of \<open>len_b\<close> bytes and returns the number of bytes read.\<close>

definition BufferedReader_readinto ::
  "progress_reader \<Rightarrow> nat \<Rightarrow> (error + int) \<times> progress_reader" where
  "BufferedReader_readinto r len_b =
     (if raw_closed r then (Inl ValueError, r)
      else
        (let ret = take len_b (unread r)
         in (Inr (int (length ret)), consume r ret)))"

definition BufferedReader_readline ::
  "progress_reader \<Rightarrow> int \<Rightarrow> (error + byte list) \<times> progress_reader" where
  "BufferedReader_readline r sz =
     (if raw_closed r then (Inl ValueError, r)
      else
        (let line = takeWhile (\<lambda>b. b \<noteq> 0x0A) (unread r)
                      @ take 1 (dropWhile (\<lambda>b. b \<noteq> 0x0A) (unread r));
             ret = (if sz < 0 then line else take (nat sz) line)
         in (Inr ret, consume r ret)))"

definition BufferedReader_seek ::
  "progress_reader \<Rightarrow> int \<Rightarrow> int \<Rightarrow> (error + int) \<times> progress_reader" where
  "BufferedReader_seek r off whence =
     (if raw_closed r \<or> whence \<notin> {0, 1, 2} then (Inl ValueError, r)
      else
        (let target = (if whence = 0 then off
                       else if whence = 1 then int (raw_pos r) + off
                       else int (length (raw_data r)) + off)
         in if target < 0 then (Inl OSError, r)
            else (Inr target, r\<lparr>raw_pos := nat target\<rparr>)))"

text \<open>What a successful superclass read does to the reader.\<close>

definition reads_bytes :: "progress_reader \<Rightarrow> nat \<Rightarrow> progress_reader \<Rightarrow> bool" where
  "reads_bytes r k r' \<longleftrightarrow>
     raw_pos r' = raw_pos r + k \<and> raw_data r' = raw_data r \<and> progress_bar r' = progress_bar r \<and>
     k \<le> length (raw_data r) - raw_pos r"

subsection \<open>\<^verbatim>\<open>_ProgressBufferedReader\<close>\<close>

text \<open>
  \<^verbatim>\<open>__init__\<close> (lines 49-52). \<^verbatim>\<open>io.BufferedReader\<close> rejects a buffer size that is not
  positive; the total of the bar is the size of the file. \<^verbatim>\<open>tqdm(total=file_size, **bar_kwargs)\<close>
  is a \<^verbatim>\<open>TypeError\<close> when \<^verbatim>\<open>bar_kwargs\<close> has a \<^verbatim>\<open>total\<close> of its own; the bar starts at
  the \<^verbatim>\<open>initial\<close> argument, 0 when there is none.
\<close>

definition ProgressBufferedReader_init ::
  "byte list \<Rightarrow> int \<Rightarrow> (string \<Rightarrow> pyval option) \<Rightarrow> error + progress_reader" where
  "ProgressBufferedReader_init raw buf_size kwargs =
     (if buf_size \<le> 0 then Inl ValueError
      else if kwargs ''total'' \<noteq> None then Inl TypeError
      else Inr \<lparr>raw_data = raw, raw_pos = 0, raw_closed = False, bufsize = buf_size,
                progress_bar = \<lparr>bar_n = (case kwargs ''initial'' of Some (PyInt i) \<Rightarrow> i | _ \<Rightarrow> 0),
                                 bar_total = int (length raw), bar_kwargs = kwargs,
                                 bar_closed = False, bar_log = []\<rparr>\<rparr>)"

text \<open>Lines 66-90: each method calls the superclass and then reports to the bar.\<close>

definition update_bar :: "progress_reader \<Rightarrow> int \<Rightarrow> progress_reader" where
  "update_bar r k = r\<lparr>progress_bar := tqdm_update (progress_bar r) k\<rparr>"

definition ProgressBufferedReader_read ::
  "progress_reader \<Rightarrow> int \<Rightarrow> (error + byte list) \<times> progress_reader" where
  "ProgressBufferedReader_read r sz =
     (case BufferedReader_read r sz of
        (Inl e, r') \<Rightarrow> (Inl e, r')
      | (Inr ret, r') \<Rightarrow> (Inr ret, update_bar r' (int (length ret))))"

definition ProgressBufferedReader_read1 ::
  "progress_reader \<Rightarrow> int \<Rightarrow> nat \<Rightarrow> (error + byte list) \<times> progress_reader" where
  "ProgressBufferedReader_read1 r sz readahead =
     (case BufferedReader_read1 r sz readahead of
        (Inl e, r') \<Rightarrow> (Inl e, r')
      | (Inr ret, r') \<Rightarrow> (Inr ret, update_bar r' (int (length ret))))"

definition ProgressBufferedReader_readinto ::
  "progress_reader \<Rightarrow> nat \<Rightarrow> (error + int) \<times> progress_reader" where
  "ProgressBufferedReader_readinto r len_b =
     (case BufferedReader_readinto r len_b of
        (Inl e, r') \<Rightarrow> (Inl e, r')
      | (Inr ret, r') \<Rightarrow> (Inr ret, update_bar r' ret))"

definition ProgressBufferedReader_readline ::
  "progress_reader \<Rightarrow> int \<Rightarrow> (error + byte list) \<times> progress_reader" where
  "ProgressBufferedReader_readline r sz =
     (case BufferedReader_readline r sz of
        (Inl e, r') \<Rightarrow> (Inl e, r')
      | (Inr ret, r') \<Rightarrow> (Inr ret, update_bar r' (int (length ret))))"

definition ProgressBufferedReader_seek ::
  "progress_reader \<Rightarrow> int \<Rightarrow> int \<Rightarrow> (error + int) \<times> progress_reader" where
  "ProgressBufferedReader_seek r off whence =
     (case BufferedReader_seek r off whence of
        (Inl e, r') \<Rightarrow> (Inl e, r')
      | (Inr ret, r') \<Rightarrow>
          (Inr ret, r'\<lparr>progress_bar := tqdm_refresh (tqdm_set_n (progress_bar r') ret)\<rparr>))"

text \<open>
  \<^verbatim>\<open>close\<close> (lines 63-64) replaces the superclass method and calls the bar only.
  \<^verbatim>\<open>__exit__\<close> (lines 58-61): \<^verbatim>\<open>IOBase.__exit__\<close> calls \<^verbatim>\<open>self.close()\<close>, which is
  the method above, and returns \<^verbatim>\<open>None\<close>; then \<^verbatim>\<open>tqdm.__exit__\<close> closes the bar.
\<close>

definition ProgressBufferedReader_close :: "progress_reader \<Rightarrow> progress_reader" where
  "ProgressBufferedReader_close r = r\<lparr>progress_bar := tqdm_close (progress_bar r)\<rparr>"

definition ProgressBufferedReader_exit :: "progress_reader \<Rightarrow> progress_reader" where
  "ProgressBufferedReader_exit r =
     (let r1 = ProgressBufferedReader_close r
      in r1\<lparr>progress_bar := tqdm_close (progress_bar r1)\<rparr>)"

text \<open>A read-family call, and the number of bytes it returned.\<close>

datatype read_op = Read int | Read1 int nat | ReadInto nat | ReadLine int

definition returned :: "(error + byte list) \<times> progress_reader \<Rightarrow> (error + nat) \<times> progress_reader"
where
  "returned res = (case res of (Inl e, r') \<Rightarrow> (Inl e, r') | (Inr ret, r') \<Rightarrow> (Inr (length ret), r'))"

fun do_read :: "read_op \<Rightarrow> progress_reader \<Rightarrow> (error + nat) \<times> progress_reader" where
  "do_read (Read sz) r = returned (ProgressBufferedReader_read r sz)"
| "do_read (Read1 sz readahead) r = returned (ProgressBufferedReader_read1 r sz readahead)"
| "do_read (ReadInto len_b) r =
     (case ProgressBufferedReader_readinto r len_b of
        (Inl e, r') \<Rightarrow> (Inl e, r')
      | (Inr ret, r') \<Rightarrow> (Inr (nat ret), r'))"
| "do_read (ReadLine sz) r = returned (ProgressBufferedReader_readline r sz)"

text \<open>
  A sequence of read-family calls: the total number of bytes they returned. A call that
  raises returns nothing, and the caller goes on.
\<close>

fun run_reads :: "read_op list \<Rightarrow> progress_reader \<Rightarrow> nat \<times> progress_reader" where
  "run_reads [] r = (0, r)"
| "run_reads (c # cs) r =
     (case do_read c r of
        (Inl e, r') \<Rightarrow> run_reads cs r'
      | (Inr k, r') \<Rightarrow> (case run_reads cs r' of (later, r'') \<Rightarrow> (k + later, r'')))"

subsection \<open>\<^verbatim>\<open>progress_open\<close>\<close>

datatype opened =
    PlainFile handle
  | ProgressBinary progress_reader
  | ProgressText progress_reader string

text \<open>\<^verbatim>\<open>io.FileIO(path, mode="r")\<close>: the raw file, opened for reading.\<close>

definition FileIO_r :: "world \<Rightarrow> path \<Rightarrow> (error + byte list) \<times> world" where
  "FileIO_r w p =
     (let w' = w\<lparr>io_log := io_log w @ [Opened p ''r'']\<rparr>
      in case files w p of None \<Rightarrow> (Inl FileNotFoundError, w') | Some d \<Rightarrow> (Inr d, w'))"

definition setdefault ::
  "(string \<Rightarrow> pyval option) \<Rightarrow> string \<Rightarrow> pyval \<Rightarrow> (string \<Rightarrow> pyval option)" where
  "setdefault kwargs k v = (case kwargs k of None \<Rightarrow> kwargs(k := Some v) | Some _ \<Rightarrow> kwargs)"

text \<open>\<^verbatim>\<open>progress_open.__new__\<close> (lines 114-127).\<close>

definition progress_open ::
  "world \<Rightarrow> path \<Rightarrow> string \<Rightarrow> string \<Rightarrow> bool \<Rightarrow> int \<Rightarrow> (string \<Rightarrow> pyval option)
     \<Rightarrow> (error + opened) \<times> world"
where
  "progress_open w p mode encoding verbose buf_size kwargs =
     (if \<not> verbose then
        (case builtin_open w p mode of
           (Inl e, w') \<Rightarrow> (Inl e, w')
         | (Inr h, w') \<Rightarrow> (Inr (PlainFile h), w'))
      else if mode \<notin> set [''r'', ''rb''] then (Inl ValueError, w)
      else
        (let kwargs' = setdefault kwargs ''bar_format''
                         (PyStr ''{l_bar}{bar}| [{elapsed}<{remaining}]'')
         in case FileIO_r w p of
              (Inl e, w') \<Rightarrow> (Inl e, w')
            | (Inr raw, w') \<Rightarrow>
                (case ProgressBufferedReader_init raw buf_size kwargs' of
                   Inl e \<Rightarrow> (Inl e, w')
                 | Inr f \<Rightarrow>
                     (if mode = ''r'' then (Inr (ProgressText f encoding), w')
                      else (Inr (ProgressBinary f), w')))))"

subsection \<open>\<^verbatim>\<open>shut_up\<close>\<close>

text \<open>
  The descriptor table of the process: entry \<open>fd\<close> names the open file that descriptor
  \<open>fd\<close> refers to, \<open>None\<close> when the descriptor is closed. \<^verbatim>\<open>os.open\<close> and \<^verbatim>\<open>os.dup\<close>
  return the lowest descriptor not in use; \<^verbatim>\<open>os.dup\<close>, \<^verbatim>\<open>os.dup2\<close> and \<^verbatim>\<open>os.close\<close> on
  a closed descriptor raise \<^verbatim>\<open>OSError\<close> and change nothing.
\<close>

type_synonym fd_table = "string option list"

definition devnull :: string where
  "devnull = ''/dev/null''"

fun lowest_free :: "fd_table \<Rightarrow> nat" where
  "lowest_free [] = 0"
| "lowest_free (None # t) = 0"
| "lowest_free (Some f # t) = Suc (lowest_free t)"

definition get_fd :: "fd_table \<Rightarrow> nat \<Rightarrow> string option" where
  "get_fd t fd = (if fd < length t then t ! fd else None)"

definition set_fd :: "fd_table \<Rightarrow> nat \<Rightarrow> string option \<Rightarrow> fd_table" where
  "set_fd t fd v = (t @ replicate (Suc fd - length t) None)[fd := v]"

definition os_open :: "fd_table \<Rightarrow> string \<Rightarrow> nat \<times> fd_table" where
  "os_open t f = (lowest_free t, set_fd t (lowest_free t) (Some f))"

definition os_dup :: "fd_table \<Rightarrow> nat \<Rightarrow> (error + nat) \<times> fd_table" where
  "os_dup t fd =
     (case get_fd t fd of
        None \<Rightarrow> (Inl OSError, t)
      | Some f \<Rightarrow> (Inr (lowest_free t), set_fd t (lowest_free t) (Some f)))"

definition os_dup2 :: "fd_table \<Rightarrow> nat \<Rightarrow> nat \<Rightarrow> error option \<times> fd_table" where
  "os_dup2 t fd fd2 =
     (case get_fd t fd of
        None \<Rightarrow> (Some OSError, t)
      | Some f \<Rightarrow> (None, set_fd t fd2 (Some f)))"

definition os_close :: "fd_table \<Rightarrow> nat \<Rightarrow> error option \<times> fd_table" where
  "os_close t fd =
     (case get_fd t fd of
        None \<Rightarrow> (Some OSError, t)
      | Some f \<Rightarrow> (None, set_fd t fd None))"

text \<open>Line 37: \<^verbatim>\<open>null_fds = [os.open(os.devnull, os.O_RDWR) for _ in fds]\<close>.\<close>

fun open_nulls :: "nat list \<Rightarrow> fd_table \<Rightarrow> nat list \<times> fd_table" where
  "open_nulls [] t = ([], t)"
| "open_nulls (fd # fds) t =
     (case os_open t devnull of
        (null_fd, t1) \<Rightarrow> (case open_nulls fds t1 of (rest, t2) \<Rightarrow> (null_fd # rest, t2)))"

text \<open>Line 38: \<^verbatim>\<open>output_fds = [os.dup(fd) for fd in fds]\<close>.\<close>

fun dup_all :: "nat list \<Rightarrow> fd_table \<Rightarrow> (error + nat list) \<times> fd_table" where
  "dup_all [] t = (Inr [], t)"
| "dup_all (fd # fds) t =
     (case os_dup t fd of
        (Inl e, t1) \<Rightarrow> (Inl e, t1)
      | (Inr output_fd, t1) \<Rightarrow>
          (case dup_all fds t1 of
             (Inl e, t2) \<Rightarrow> (Inl e, t2)
           | (Inr rest, t2) \<Rightarrow> (Inr (output_fd # rest), t2)))"

text \<open>Lines 39-40: \<^verbatim>\<open>for null_fd, fd in zip(null_fds, fds): os.dup2(null_fd, fd)\<close>.\<close>

fun redirect_all :: "(nat \<times> nat) list \<Rightarrow> fd_table \<Rightarrow> error option \<times> fd_table" where
  "redirect_all [] t = (None, t)"
| "redirect_all ((null_fd, fd) # rest) t =
     (case os_dup2 t null_fd fd of
        (Some e, t1) \<Rightarrow> (Some e, t1)
      | (None, t1) \<Rightarrow> redirect_all rest t1)"

text \<open>Lines 43-45: the loop after the \<^verbatim>\<open>yield\<close>.\<close>

fun restore_all :: "(nat \<times> nat \<times> nat) list \<Rightarrow> fd_table \<Rightarrow> error option \<times> fd_table" where
  "restore_all [] t = (None, t)"
| "restore_all ((null_fd, output_fd, fd) # rest) t =
     (case os_dup2 t output_fd fd of
        (Some e, t1) \<Rightarrow> (Some e, t1)
      | (None, t1) \<Rightarrow>
          (case os_close t1 null_fd of
             (Some e, t2) \<Rightarrow> (Some e, t2)
           | (None, t2) \<Rightarrow> restore_all rest t2))"

text \<open>
  \<^verbatim>\<open>shut_up\<close> is a generator under \<^verbatim>\<open>contextlib.contextmanager\<close>. Entering the scope
  runs it up to the \<^verbatim>\<open>yield\<close> (lines 36-41); the generator's local variables are kept
  with it. Leaving the scope normally resumes it after the \<^verbatim>\<open>yield\<close> (lines 43-45).
  Leaving the scope by an exception raises that exception at the \<^verbatim>\<open>yield\<close>; no handler
  and no \<^verbatim>\<open>finally\<close> encloses it, so the generator ends there and the exception goes on
  to the caller.
\<close>

record shut_up_locals =
  fds :: "nat list"
  null_fds :: "nat list"
  output_fds :: "nat list"

datatype body_outcome = Returned | Raised error

definition shut_up_enter ::
  "bool \<Rightarrow> bool \<Rightarrow> fd_table \<Rightarrow> (error + shut_up_locals) \<times> fd_table" where
  "shut_up_enter stderr stdout t =
     (let fds0 = (if stdout then [1] else []) @ (if stderr then [2] else [])
      in case open_nulls fds0 t of
           (nulls, t1) \<Rightarrow>
             (case dup_all fds0 t1 of
                (Inl e, t2) \<Rightarrow> (Inl e, t2)
              | (Inr outs, t2) \<Rightarrow>
                  (case redirect_all (zip nulls fds0) t2 of
                     (Some e, t3) \<Rightarrow> (Inl e, t3)
                   | (None, t3) \<Rightarrow>
                       (Inr \<lparr>fds = fds0, null_fds = nulls, output_fds = outs\<rparr>, t3))))"

definition shut_up_exit ::
  "body_outcome \<Rightarrow> shut_up_locals \<Rightarrow> fd_table \<Rightarrow> error option \<times> fd_table" where
  "shut_up_exit outcome l t =
     (case outcome of
        Raised e \<Rightarrow> (Some e, t)
      | Returned \<Rightarrow> restore_all (zip (null_fds l) (zip (output_fds l) (fds l))) t)"

text \<open>
  The whole \<^verbatim>\<open>with shut_up(...)\<close> statement around a body that does not change the
  descriptor table itself: the exception that leaves the statement, if any, and the
  table after it.
\<close>

definition with_shut_up ::
  "bool \<Rightarrow> bool \<Rightarrow> (fd_table \<Rightarrow> body_outcome) \<Rightarrow> fd_table \<Rightarrow> error option \<times> fd_table" where
  "with_shut_up stderr stdout body t =
     (case shut_up_enter stderr stdout t of
        (Inl e, t1) \<Rightarrow> (Some e, t1)
      | (Inr l, t1) \<Rightarrow> shut_up_exit (body t1) l t1)"

section \<open>Properties of the codec and of \<^verbatim>\<open>split\<close>\<close>

lemma is_cont_head: "is_cont b \<Longrightarrow> utf8_char (b # bs) = None"
  by (simp add: is_cont_def word_le_nat_alt word_less_nat_alt utf8_char.simps)

lemma utf8_char_shape:
  assumes "utf8_char bs = Some (cp, n)"
  shows "\<exists>b0 cs rest. bs = b0 # cs @ rest \<and> Suc (length cs) = n \<and> n \<le> 4 \<and>
           (\<forall>c\<in>set cs. is_cont c) \<and> (\<forall>zs. utf8_char (b0 # cs @ zs) = Some (cp, n))"
proof (cases bs)
  case Nil
  with assms show ?thesis by (simp add: utf8_char.simps)
next
  case (Cons b0 r)
  note utf8_char.simps [simp]
  consider (one) "b0 < 0x80"
    | (two) "\<not> b0 < 0x80" "0xC2 \<le> b0 \<and> b0 \<le> 0xDF"
    | (three) "\<not> b0 < 0x80" "\<not> (0xC2 \<le> b0 \<and> b0 \<le> 0xDF)" "0xE0 \<le> b0 \<and> b0 \<le> 0xEF"
    | (four) "\<not> b0 < 0x80" "\<not> (0xC2 \<le> b0 \<and> b0 \<le> 0xDF)" "\<not> (0xE0 \<le> b0 \<and> b0 \<le> 0xEF)"
        "0xF0 \<le> b0 \<and> b0 \<le> 0xF4"
    | (bad) "\<not> b0 < 0x80" "\<not> (0xC2 \<le> b0 \<and> b0 \<le> 0xDF)" "\<not> (0xE0 \<le> b0 \<and> b0 \<le> 0xEF)"
        "\<not> (0xF0 \<le> b0 \<and> b0 \<le> 0xF4)"
    by blast
  then show ?thesis
  proof cases
    case one
    with assms Cons have "n = 1" "cp = unat b0" by auto
    with one Cons show ?thesis
      by (intro exI [of _ b0] exI [of _ "[]"] exI [of _ r]) simp
  next
    case two
    with assms Cons obtain b1 r1 where r: "r = b1 # r1" and c: "is_cont b1"
      and v: "cp = (unat b0 - 0xC0) * 64 + cont_bits b1" "n = 2"
      by (auto split: list.splits if_splits)
    with two Cons show ?thesis
      by (intro exI [of _ b0] exI [of _ "[b1]"] exI [of _ r1]) simp
  next
    case three
    with assms Cons obtain b1 b2 r1 where r: "r = b1 # b2 # r1" and c: "is_cont b1" "is_cont b2"
      and v: "utf8_char (b0 # b1 # b2 # r1) = Some (cp, n)" "n = 3"
      by (auto split: list.splits if_splits simp: Let_def)
    from v three have "\<forall>zs. utf8_char (b0 # [b1, b2] @ zs) = Some (cp, n)"
      by (auto split: if_splits simp: Let_def)
    with three Cons r c v show ?thesis
      by (intro exI [of _ b0] exI [of _ "[b1, b2]"] exI [of _ r1]) simp
  next
    case four
    with assms Cons obtain b1 b2 b3 r1 where r: "r = b1 # b2 # b3 # r1"
      and c: "is_cont b1" "is_cont b2" "is_cont b3"
      and v: "utf8_char (b0 # b1 # b2 # b3 # r1) = Some (cp, n)" "n = 4"
      by (auto split: list.splits if_splits simp: Let_def)
    from v four have "\<forall>zs. utf8_char (b0 # [b1, b2, b3] @ zs) = Some (cp, n)"
      by (auto split: if_splits simp: Let_def)
    with four Cons r c v show ?thesis
      by (intro exI [of _ b0] exI [of _ "[b1, b2, b3]"] exI [of _ r1]) simp
  next
    case bad
    with assms Cons show ?thesis by simp
  qed
qed

declare utf8_char.simps [simp del]
declare utf8_decode.simps(2) [simp del]

lemma utf8_decode_char:
  assumes "utf8_char (b0 # cs @ rest) = Some (cp, Suc (length cs))"
  shows "utf8_decode (b0 # cs @ rest) = map_option ((#) cp) (utf8_decode rest)"
  using assms by (simp add: utf8_decode.simps(2))

lemma utf8_decode_cont: "is_cont b \<Longrightarrow> utf8_decode (b # bs) = None"
  by (simp add: is_cont_head utf8_decode.simps(2))

lemma utf8_decode_Nil: "utf8_decode bs = Some [] \<Longrightarrow> bs = []"
  by (cases bs) (auto simp: utf8_decode.simps(2) split: option.splits)

lemma utf8_decode_append:
  "utf8_decode xs = Some a \<Longrightarrow> utf8_decode (xs @ ys) = map_option ((@) a) (utf8_decode ys)"
proof (induction xs arbitrary: a rule: length_induct)
  case (1 xs)
  show ?case
  proof (cases xs)
    case Nil
    with 1 show ?thesis by (simp add: option.map_ident)
  next
    case (Cons b bs)
    with "1.prems" obtain cp n where ch: "utf8_char xs = Some (cp, n)"
      by (auto simp: utf8_decode.simps(2) split: option.splits)
    from utf8_char_shape [OF ch] obtain b0 cs rest where
      xs: "xs = b0 # cs @ rest" and n: "Suc (length cs) = n"
      and all: "\<forall>zs. utf8_char (b0 # cs @ zs) = Some (cp, n)"
      by blast
    have d1: "utf8_decode xs = map_option ((#) cp) (utf8_decode rest)"
      unfolding xs using all n by (intro utf8_decode_char) simp
    with "1.prems" obtain a' where a': "utf8_decode rest = Some a'" "a = cp # a'"
      by auto
    have "length rest < length xs" using xs by simp
    with 1 a' have ih: "utf8_decode (rest @ ys) = map_option ((@) a') (utf8_decode ys)"
      by blast
    have "utf8_decode (b0 # cs @ (rest @ ys)) = map_option ((#) cp) (utf8_decode (rest @ ys))"
      using all n by (intro utf8_decode_char) simp
    with ih a' xs show ?thesis
      by (simp add: option.map_comp comp_def)
  qed
qed

lemma utf8_decode_boundary:
  "utf8_decode (xs @ ys) = Some t \<Longrightarrow>
   \<exists>k a c. k \<le> 3 \<and> k \<le> length ys \<and> (\<forall>j<k. utf8_decode (drop j ys) = None) \<and>
     utf8_decode (xs @ take k ys) = Some a \<and> utf8_decode (drop k ys) = Some c \<and> t = a @ c \<and>
     (xs = [] \<longrightarrow> k = 0)"
proof (induction xs arbitrary: t rule: length_induct)
  case (1 xs)
  show ?case
  proof (cases xs)
    case Nil
    with "1.prems" show ?thesis
      by (intro exI [of _ 0] exI [of _ "[]"] exI [of _ t]) simp
  next
    case (Cons b bs)
    with "1.prems" obtain cp n where ch: "utf8_char (xs @ ys) = Some (cp, n)"
      by (auto simp: utf8_decode.simps(2) split: option.splits)
    from utf8_char_shape [OF ch] obtain b0 cs rest where
      xy: "xs @ ys = b0 # cs @ rest" and n: "Suc (length cs) = n" and n4: "n \<le> 4"
      and cont: "\<forall>c\<in>set cs. is_cont c"
      and all: "\<forall>zs. utf8_char (b0 # cs @ zs) = Some (cp, n)"
      by blast
    have dec: "\<And>zs. utf8_decode (b0 # cs @ zs) = map_option ((#) cp) (utf8_decode zs)"
      using all n by (intro utf8_decode_char) simp
    from "1.prems" xy dec obtain t' where t': "utf8_decode rest = Some t'" "t = cp # t'"
      by auto
    from xy Cons have b0: "b = b0" and bs: "bs @ ys = cs @ rest" by auto
    show ?thesis
    proof (cases "length cs \<le> length bs")
      case True
      define xs' where "xs' = drop (length cs) bs"
      from bs have "take (length cs) (bs @ ys) = take (length cs) (cs @ rest)"
        and "drop (length cs) (bs @ ys) = drop (length cs) (cs @ rest)"
        by simp_all
      with True have "take (length cs) bs = cs" and r: "rest = xs' @ ys"
        unfolding xs'_def by simp_all
      then have "bs = cs @ xs'"
        unfolding xs'_def by (metis append_take_drop_id)
      note xs' = this r
      have "length xs' < length xs" using xs' Cons by simp
      with 1 t' xs' obtain k a c where k: "k \<le> 3" "k \<le> length ys"
        "\<forall>j<k. utf8_decode (drop j ys) = None"
        "utf8_decode (xs' @ take k ys) = Some a" "utf8_decode (drop k ys) = Some c" "t' = a @ c"
        by blast
      have "utf8_decode (xs @ take k ys) = map_option ((#) cp) (utf8_decode (xs' @ take k ys))"
        using dec [of "xs' @ take k ys"] Cons b0 xs' by simp
      with k t' Cons show ?thesis
        by (intro exI [of _ k] exI [of _ "cp # a"] exI [of _ c]) simp
    next
      case False
      define cs2 where "cs2 = drop (length bs) cs"
      from bs have "take (length bs) (bs @ ys) = take (length bs) (cs @ rest)"
        and "drop (length bs) (bs @ ys) = drop (length bs) (cs @ rest)"
        by simp_all
      with False have "take (length bs) cs = bs" and r: "ys = cs2 @ rest" and ne: "cs2 \<noteq> []"
        unfolding cs2_def by simp_all
      then have "cs = bs @ cs2"
        unfolding cs2_def by (metis append_take_drop_id)
      note cs2 = this r ne
      let ?k = "length cs2"
      have k3: "?k \<le> 3" using n n4 cs2 by simp
      have fail: "\<forall>j<?k. utf8_decode (drop j ys) = None"
      proof (intro allI impI)
        fix j assume j: "j < ?k"
        then have "drop j ys = (cs2 ! j) # drop (Suc j) cs2 @ rest"
          using cs2 by (simp add: Cons_nth_drop_Suc)
        moreover have "is_cont (cs2 ! j)" using cont cs2 j by simp
        ultimately show "utf8_decode (drop j ys) = None"
          using utf8_decode_cont by simp
      qed
      have "utf8_decode (xs @ take ?k ys) = Some [cp]"
        using dec [of "[]"] Cons b0 cs2 by simp
      with k3 fail t' cs2 Cons show ?thesis
        by (intro exI [of _ ?k] exI [of _ "[cp]"] exI [of _ t']) simp
    qed
  qed
qed

lemma split_not_Nil: "split s \<noteq> []"
  by (cases s) simp_all

lemma split_hd_tl: "hd (split s) # tl (split s) = split s"
  by (simp add: split_not_Nil)

lemma split_append:
  "split (a @ b) = butlast (split a) @ [last (split a) @ hd (split b)] @ tl (split b)"
proof (induction a)
  case Nil
  show ?case by (simp add: split_not_Nil)
next
  case (Cons c a)
  show ?case
  proof (cases "c = NL")
    case True
    with Cons show ?thesis by (simp add: split_not_Nil)
  next
    case False
    show ?thesis
    proof (cases "tl (split a) = []")
      case True
      then have sa: "split a = [hd (split a)]"
        by (metis split_hd_tl)
      have "butlast (split a) = []" "last (split a) = hd (split a)"
        by (subst sa, simp)+
      with False True Cons show ?thesis by (simp add: split_not_Nil)
    next
      case F2: False
      then have "butlast (split a) \<noteq> []"
        by (metis butlast.simps(2) split_hd_tl list.distinct(1))
      moreover have "last (split a) = last (tl (split a))"
        using F2 by (metis last_ConsR split_hd_tl)
      moreover have "butlast (split a) = hd (split a) # butlast (tl (split a))"
        using F2 by (metis butlast.simps(2) split_hd_tl)
      ultimately show ?thesis using False F2 Cons by (simp add: split_not_Nil)
    qed
  qed
qed

lemma split_last_NL:
  "a \<noteq> [] \<Longrightarrow> last a = NL \<Longrightarrow> last (split a) = [] \<and> tl (split a) \<noteq> []"
proof (induction a)
  case Nil
  then show ?case by simp
next
  case (Cons c a)
  show ?case
  proof (cases "a = []")
    case True
    with Cons.prems show ?thesis by simp
  next
    case False
    with Cons have ih: "last (split a) = []" "tl (split a) \<noteq> []" by simp_all
    then have "last (tl (split a)) = []"
      by (metis last_tl split_not_Nil list.sel(2))
    with ih show ?thesis by (simp add: split_not_Nil)
  qed
qed

lemma yield_lines_take:
  "i < length ls \<Longrightarrow>
   yield_lines ae ls i = filter (\<lambda>l. ae \<or> l \<noteq> []) (rev (take i (tl ls)))"
proof (induction i)
  case 0
  show ?case by simp
next
  case (Suc i)
  then have "i < length (tl ls)" by simp
  then have "take (Suc i) (tl ls) = take i (tl ls) @ [tl ls ! i]"
    by (rule take_Suc_conv_app_nth)
  moreover have "tl ls ! i = ls ! Suc i"
    using Suc.prems by (cases ls) simp_all
  ultimately show ?case using Suc by simp
qed

lemma yield_lines_eq:
  "ls \<noteq> [] \<Longrightarrow>
   yield_lines ae ls (length ls - 1) = filter (\<lambda>l. ae \<or> l \<noteq> []) (rev (tl ls))"
  by (simp add: yield_lines_take)

lemma filter_nonempty_allowed:
  "filter (\<lambda>l. l \<noteq> []) (filter (\<lambda>l. ae \<or> l \<noteq> []) xs) = filter (\<lambda>l. l \<noteq> []) xs"
  by (induction xs) auto

lemma nonempty_yield_lines:
  "ls \<noteq> [] \<Longrightarrow>
   nonempty_lines (yield_lines ae ls (length ls - Suc 0)) = rev (nonempty_lines (tl ls))"
proof -
  assume "ls \<noteq> []"
  then have "yield_lines ae ls (length ls - 1) = filter (\<lambda>l. ae \<or> l \<noteq> []) (rev (tl ls))"
    by (rule yield_lines_eq)
  then have "nonempty_lines (yield_lines ae ls (length ls - Suc 0))
      = filter (\<lambda>l. l \<noteq> []) (filter (\<lambda>l. ae \<or> l \<noteq> []) (rev (tl ls)))"
    by (simp only: nonempty_lines_def One_nat_def)
  also have "\<dots> = filter (\<lambda>l. l \<noteq> []) (rev (tl ls))"
    by (rule filter_nonempty_allowed)
  finally show ?thesis
    by (simp add: nonempty_lines_def rev_filter)
qed

lemma decode_retry_least:
  "t + k < MAX_CHAR_BYTES \<Longrightarrow> \<forall>j<k. enc (drop j bs) = None \<Longrightarrow> enc (drop k bs) = Some buf \<Longrightarrow>
   decode_retry enc t bs cur off = Inr (buf, cur - int k, off - int k)"
proof (induction k arbitrary: t bs cur off)
  case 0
  then show ?case by (simp add: decode_retry.simps)
next
  case (Suc k)
  from Suc.prems(2) have "enc bs = None" by (metis drop0 zero_less_Suc)
  moreover have "\<forall>j<k. enc (drop j (drop 1 bs)) = None"
    using Suc.prems(2) by simp
  moreover have "enc (drop k (drop 1 bs)) = Some buf"
    using Suc.prems(3) by simp
  moreover have "Suc t + k < MAX_CHAR_BYTES" using Suc.prems(1) by simp
  ultimately have "decode_retry enc (Suc t) (drop 1 bs) (cur - 1) (off - 1)
      = Inr (buf, cur - 1 - int k, off - 1 - int k)"
    using Suc.IH by blast
  with \<open>enc bs = None\<close> Suc.prems(1) show ?case
    by (subst decode_retry.simps) (simp add: MAX_CHAR_BYTES_def)
qed

lemma decode_retry_exhausted:
  "\<forall>j. t + j < MAX_CHAR_BYTES \<longrightarrow> enc (drop j bs) = None \<Longrightarrow> t < MAX_CHAR_BYTES \<Longrightarrow>
   decode_retry enc t bs cur off = Inl UnicodeDecodeError"
proof (induction "MAX_CHAR_BYTES - t" arbitrary: t bs cur off)
  case 0
  then show ?case by simp
next
  case (Suc m)
  from Suc.prems have none: "enc bs = None" by (metis add.right_neutral drop0)
  show ?case
  proof (cases "Suc t \<ge> MAX_CHAR_BYTES")
    case True
    with none show ?thesis by (subst decode_retry.simps) simp
  next
    case False
    have "\<forall>j. Suc t + j < MAX_CHAR_BYTES \<longrightarrow> enc (drop j (drop 1 bs)) = None"
      using Suc.prems(1) by simp
    moreover have "m = MAX_CHAR_BYTES - Suc t" using Suc.hyps(2) by simp
    ultimately have "decode_retry enc (Suc t) (drop 1 bs) (cur - 1) (off - 1) = Inl UnicodeDecodeError"
      using Suc.hyps(1) False by simp
    with none False show ?thesis by (subst decode_retry.simps) simp
  qed
qed

lemma decode_retry_Inr:
  "decode_retry enc t bs cur off = Inr (buf, cur', off') \<Longrightarrow>
   \<exists>k. k \<le> MAX_CHAR_BYTES - 1 - t \<and> cur' = cur - int k \<and> off' = off - int k \<and>
     enc (drop k bs) = Some buf"
proof (induction enc t bs cur off rule: decode_retry.induct)
  case (1 enc t bs cur off)
  show ?case
  proof (cases "enc bs")
    case (Some b)
    with "1.prems" have "buf = b" "cur' = cur" "off' = off"
      by (simp_all add: decode_retry.simps)
    with Some show ?thesis
      by (intro exI [of _ 0]) simp
  next
    case None
    with "1.prems" have lt: "\<not> MAX_CHAR_BYTES \<le> Suc t"
      and eq: "decode_retry enc (Suc t) (drop 1 bs) (cur - 1) (off - 1) = Inr (buf, cur', off')"
      by (simp_all add: decode_retry.simps split: if_splits)
    from "1.IH" [OF None lt eq] obtain k where
      "k \<le> MAX_CHAR_BYTES - 1 - Suc t" "cur' = cur - 1 - int k" "off' = off - 1 - int k"
      "enc (drop k (drop 1 bs)) = Some buf"
      by blast
    with lt show ?thesis
      by (intro exI [of _ "Suc k"]) simp
  qed
qed

lemma nonempty_lines_append [simp]:
  "nonempty_lines (xs @ ys) = nonempty_lines xs @ nonempty_lines ys"
  by (simp add: nonempty_lines_def)

lemma nonempty_lines_Nil [simp]: "nonempty_lines [] = []" "nonempty_lines [[]] = []"
  by (simp_all add: nonempty_lines_def)

lemma last_update_eq:
  "ls \<noteq> [] \<Longrightarrow> ls[length ls - 1 := ls ! (length ls - 1) @ seg] = butlast ls @ [last ls @ seg]"
  by (induction ls rule: rev_induct) (simp_all add: nth_append)

lemma lines_concat:
  fixes c s seg
  assumes "seg = hd (split s)"
  defines "ls \<equiv> (split c)[length (split c) - 1 := split c ! (length (split c) - 1) @ seg]"
  shows "ls \<noteq> []" and "ls ! 0 = hd (split (c @ s))" and "tl ls @ tl (split s) = tl (split (c @ s))"
proof -
  have ls: "ls = butlast (split c) @ [last (split c) @ seg]"
    unfolding ls_def by (rule last_update_eq) (rule split_not_Nil)
  then show "ls \<noteq> []" by simp
  have sp: "split (c @ s) = ls @ tl (split s)"
    using ls assms(1) by (simp add: split_append)
  from \<open>ls \<noteq> []\<close> show "ls ! 0 = hd (split (c @ s))"
    unfolding sp by (cases ls) simp_all
  from \<open>ls \<noteq> []\<close> show "tl ls @ tl (split s) = tl (split (c @ s))"
    unfolding sp by (cases ls) simp_all
qed

lemma lines_flush:
  assumes "seg = hd (split s)" "c \<noteq> []" "last c = NL"
  shows "split c ! 0 = hd (split (c @ s))"
    and "rev (nonempty_lines (tl (split s))) @ nonempty_lines [seg] @ rev (nonempty_lines (tl (split c)))
         = rev (nonempty_lines (tl (split (c @ s))))"
proof -
  from split_last_NL [OF assms(2,3)] have l: "last (split c) = []" and t: "tl (split c) \<noteq> []"
    by simp_all
  obtain x xs where c: "split c = x # xs" using split_not_Nil by (cases "split c") auto
  with t have xs: "xs \<noteq> []" by simp
  with l c have lx: "last xs = []" by simp
  have sp: "split (c @ s) = x # butlast xs @ [seg] @ tl (split s)"
    using c xs l assms(1) by (simp add: split_append)
  show "split c ! 0 = hd (split (c @ s))" using c sp by simp
  have "xs = butlast xs @ [[]]" using xs lx by (metis append_butlast_last_id)
  then have "nonempty_lines xs = nonempty_lines (butlast xs)"
    by (metis append_Nil2 nonempty_lines_Nil(2) nonempty_lines_append)
  then show "rev (nonempty_lines (tl (split s))) @ nonempty_lines [seg] @ rev (nonempty_lines (tl (split c)))
         = rev (nonempty_lines (tl (split (c @ s))))"
    using c sp by (simp add: nonempty_lines_def)
qed

section \<open>The generator on well-formed files\<close>

lemma chunk_facts:
  assumes len: "remaining_size st = int (length P)" "offset st = int (length S)"
    and B: "0 \<le> B"
  defines "n \<equiv> min (length P) (nat B)"
  shows "chunk_offset B (P @ S) st = int (length S) + int n"
    and "chunk_bytes B (P @ S) st = drop (length P - n) P"
proof -
  show o: "chunk_offset B (P @ S) st = int (length S) + int n"
    using len B by (auto simp: chunk_offset_def n_def min_def)
  have "min (remaining_size st) B = int n"
    using len B by (auto simp: n_def min_def)
  moreover have "nat (int (length (P @ S)) - chunk_offset B (P @ S) st) = length P - n"
    unfolding o by (simp add: n_def)
  moreover have "take n (drop (length P - n) (P @ S)) = drop (length P - n) P"
    by (simp add: n_def)
  ultimately show "chunk_bytes B (P @ S) st = drop (length P - n) P"
    by (simp add: chunk_bytes_def read_at_def)
qed

lemma utf8_decode_split:
  assumes "utf8_decode (P @ S) = Some t" "utf8_decode S = Some s"
  shows "\<exists>p. utf8_decode P = Some p"
proof -
  from utf8_decode_boundary [OF assms(1)] obtain k a where
    k: "\<forall>j<k. utf8_decode (drop j S) = None" and a: "utf8_decode (P @ take k S) = Some a"
    by blast
  have "k = 0"
  proof (rule ccontr)
    assume "k \<noteq> 0"
    with k have "utf8_decode (drop 0 S) = None" by blast
    with assms(2) show False by simp
  qed
  with a show ?thesis by simp
qed

lemma iteration_step:
  assumes dec: "utf8_decode (P @ S) = Some text"
    and inv: "gen_inv P S s st"
    and rem: "remaining_size st > 0"
    and B: "4 \<le> B"
  shows "\<exists>st' P' S' s'. iteration utf8_decode ae B (P @ S) st = Inr st' \<and> P @ S = P' @ S' \<and>
           gen_inv P' S' s' st' \<and> length P' < length P"
proof -
  from inv rem have lenP: "remaining_size st = int (length P)" and off: "offset st = int (length S)"
    and decS: "utf8_decode S = Some s"
    by (simp_all add: gen_inv_def)
  from lenP rem have Pne: "P \<noteq> []" by auto
  define n where "n = min (length P) (nat B)"
  define C where "C = drop (length P - n) P"
  define P0 where "P0 = take (length P - n) P"
  have P: "P = P0 @ C" by (simp add: P0_def C_def)
  have n1: "1 \<le> n" using Pne B by (cases P) (simp_all add: n_def)
  have lenC: "length C = n" by (simp add: C_def n_def)
  have B0: "0 \<le> B" using B by simp
  note cf = chunk_facts [OF lenP off B0, folded n_def, folded C_def]
  from utf8_decode_split [OF dec decS] obtain p where decP: "utf8_decode P = Some p" by blast
  from decP P have "utf8_decode (P0 @ C) = Some p" by simp
  from utf8_decode_boundary [OF this] obtain k a c where
    k3: "k \<le> 3" and kC: "k \<le> length C" and fail: "\<forall>j<k. utf8_decode (drop j C) = None"
    and da: "utf8_decode (P0 @ take k C) = Some a" and dc: "utf8_decode (drop k C) = Some c"
    and P0k: "P0 = [] \<longrightarrow> k = 0"
    by blast
  have kn: "k < n"
  proof (cases "P0 = []")
    case True
    with P0k n1 show ?thesis by simp
  next
    case False
    then have "n < length P" by (simp add: P0_def)
    then have "n = nat B" by (simp add: n_def)
    with B k3 show ?thesis by simp
  qed
  have small: "length P < nat B \<Longrightarrow> k = 0"
  proof -
    assume "length P < nat B"
    then have "n = length P" by (simp add: n_def)
    then have "P0 = []" by (simp add: P0_def)
    with P0k show "k = 0" by simp
  qed
  have cne: "c \<noteq> []"
  proof
    assume "c = []"
    with dc have "utf8_decode (drop k C) = Some []" by simp
    then have "drop k C = []" by (rule utf8_decode_Nil)
    with kn lenC show False by simp
  qed
  have retry: "decode_retry utf8_decode 0 (chunk_bytes B (P @ S) st) B (chunk_offset B (P @ S) st)
      = Inr (c, B - int k, int (length S) + int n - int k)"
    unfolding cf using k3 fail dc
    by (intro decode_retry_least) (simp_all add: MAX_CHAR_BYTES_def)
  define P' where "P' = P0 @ take k C"
  define S' where "S' = drop k C @ S"
  have PS: "P @ S = P' @ S'" by (simp add: P'_def S'_def P)
  have decS': "utf8_decode S' = Some (c @ s)"
    unfolding S'_def using utf8_decode_append [OF dc, of S] decS by simp
  have lenS': "int (length S') = int (length S) + int n - int k"
    using kn lenC by (simp add: S'_def)
  have nP: "n \<le> length P" by (simp add: n_def)
  have "length P0 = length P - n" by (simp add: P0_def)
  moreover have "length (take k C) = k" using kC by simp
  ultimately have lenP': "length P' = length P - n + k"
    by (simp add: P'_def)
  have lt: "length P' < length P" using lenP' kn n1 nP by simp
  have remP': "int (length P') = max 0 (remaining_size st - (B - int k))"
  proof (cases "length P < nat B")
    case True
    then have "k = 0" "n = length P" using small by (simp_all add: n_def)
    with True lenP' lenP show ?thesis by simp
  next
    case False
    then have "n = nat B" by (simp add: n_def)
    with False lenP' lenP kn B show ?thesis by simp
  qed
  have S'ne: "S' \<noteq> []" using kn lenC by (simp add: S'_def)
  show ?thesis
  proof (cases "S = []")
    case True
    with inv have seg: "segment st = None" and y: "yielded st = []" by (simp_all add: gen_inv_def)
    from True decS have s: "s = []" by simp
    let ?st' = "\<lparr>segment = Some (split c ! 0), offset = int (length S) + int n - int k,
        remaining_size = remaining_size st - (B - int k),
        yielded = yielded st @ yield_lines ae (split c) (length (split c) - 1)\<rparr>"
    have it: "iteration utf8_decode ae B (P @ S) st = Inr ?st'"
      by (simp add: iteration_def retry seg Let_def)
    have "split c ! 0 = hd (split c)" by (simp add: hd_conv_nth split_not_Nil)
    then have "gen_inv P' S' (c @ s) ?st'"
      using S'ne decS' lenS' remP' y s
      by (simp add: gen_inv_def nonempty_yield_lines split_not_Nil)
    with it PS lt show ?thesis by blast
  next
    case False
    with inv have seg: "segment st = Some (hd (split s))"
      and y: "nonempty_lines (yielded st) = rev (nonempty_lines (tl (split s)))"
      by (simp_all add: gen_inv_def)
    show ?thesis
    proof (cases "last c = NL")
      case nl: False
      define ls where "ls = (split c)[length (split c) - 1 := split c ! (length (split c) - 1) @ hd (split s)]"
      let ?st' = "\<lparr>segment = Some (ls ! 0), offset = int (length S) + int n - int k,
        remaining_size = remaining_size st - (B - int k),
        yielded = yielded st @ yield_lines ae ls (length ls - 1)\<rparr>"
      have it: "iteration utf8_decode ae B (P @ S) st = Inr ?st'"
        using nl cne by (simp add: iteration_def retry seg Let_def ls_def)
      from lines_concat [where s = s and c = c, OF refl, folded ls_def]
      have l: "ls \<noteq> []" "ls ! 0 = hd (split (c @ s))" "tl ls @ tl (split s) = tl (split (c @ s))"
        by simp_all
      have "nonempty_lines (yielded st @ yield_lines ae ls (length ls - 1))
          = rev (nonempty_lines (tl (split (c @ s))))"
        using y l(1) l(3) [symmetric] by (simp add: nonempty_yield_lines)
      then have "gen_inv P' S' (c @ s) ?st'"
        using S'ne decS' lenS' remP' l(2) by (simp add: gen_inv_def)
      with it PS lt show ?thesis by blast
    next
      case nl: True
      let ?st' = "\<lparr>segment = Some (split c ! 0), offset = int (length S) + int n - int k,
        remaining_size = remaining_size st - (B - int k),
        yielded = yielded st @ [hd (split s)] @ yield_lines ae (split c) (length (split c) - 1)\<rparr>"
      have it: "iteration utf8_decode ae B (P @ S) st = Inr ?st'"
        using nl cne by (simp add: iteration_def retry seg Let_def)
      from lines_flush [where s = s, OF refl cne nl]
      have l: "split c ! 0 = hd (split (c @ s))"
        "rev (nonempty_lines (tl (split s))) @ nonempty_lines [hd (split s)] @ rev (nonempty_lines (tl (split c)))
         = rev (nonempty_lines (tl (split (c @ s))))"
        by simp_all
      have "nonempty_lines (yielded st @ [hd (split s)] @ yield_lines ae (split c) (length (split c) - 1))
          = nonempty_lines (yielded st) @ nonempty_lines [hd (split s)]
            @ nonempty_lines (yield_lines ae (split c) (length (split c) - Suc 0))"
        by (simp only: nonempty_lines_append One_nat_def)
      also have "\<dots> = rev (nonempty_lines (tl (split s))) @ nonempty_lines [hd (split s)]
            @ rev (nonempty_lines (tl (split c)))"
        by (simp only: y nonempty_yield_lines [OF split_not_Nil])
      also note l(2)
      finally have "nonempty_lines (yielded st @ [hd (split s)] @ yield_lines ae (split c) (length (split c) - 1))
          = rev (nonempty_lines (tl (split (c @ s))))" .
      then have "gen_inv P' S' (c @ s) ?st'"
        using S'ne decS' lenS' remP' l(1) by (simp add: gen_inv_def)
      with it PS lt show ?thesis by blast
    qed
  qed
qed

lemma gen_loop_correct:
  assumes "utf8_decode file = Some text" "4 \<le> B" "file \<noteq> []"
  shows "file = P @ S \<Longrightarrow> gen_inv P S s st \<Longrightarrow>
     \<exists>out. gen_loop utf8_decode ae B file st = Some (out @ [hd (split text)], None) \<and>
       nonempty_lines out = rev (nonempty_lines (tl (split text)))"
proof (induction "length P" arbitrary: P S s st rule: less_induct)
  case less
  show ?case
  proof (cases "remaining_size st > 0")
    case True
    from assms(1) less.prems(1) have "utf8_decode (P @ S) = Some text" by simp
    from iteration_step [OF this less.prems(2) True assms(2), of ae]
    obtain st' P' S' s' where it: "iteration utf8_decode ae B (P @ S) st = Inr st'"
      and PS: "P @ S = P' @ S'" and inv: "gen_inv P' S' s' st'" and lt: "length P' < length P"
      by blast
    from less.hyps [OF lt _ inv] PS less.prems(1)
    obtain out where "gen_loop utf8_decode ae B file st' = Some (out @ [hd (split text)], None)"
      "nonempty_lines out = rev (nonempty_lines (tl (split text)))"
      by auto
    moreover have "gen_loop utf8_decode ae B file st = gen_loop utf8_decode ae B file st'"
      using True it less.prems(1) by (subst gen_loop.simps) simp
    ultimately show ?thesis by auto
  next
    case False
    with less.prems(2) have "P = []" by (simp add: gen_inv_def)
    with less.prems(1) assms(3) have S: "S = file" "S \<noteq> []" by simp_all
    with less.prems(2) assms(1) have "s = text" "segment st = Some (hd (split text))"
      "nonempty_lines (yielded st) = rev (nonempty_lines (tl (split text)))"
      by (auto simp add: gen_inv_def)
    with False show ?thesis
      by (subst gen_loop.simps) simp
  qed
qed

lemma generator_empty: "generator enc ae B [] = Some ([], None)"
  by (simp add: generator_def gen_loop.simps)

lemma generator_wellformed:
  assumes "utf8_decode file = Some text" "4 \<le> B" "file \<noteq> []"
  shows "\<exists>out. generator utf8_decode ae B file = Some (out @ [hd (split text)], None) \<and>
           nonempty_lines out = rev (nonempty_lines (tl (split text)))"
proof -
  have "gen_inv file [] [] \<lparr>segment = None, offset = 0, remaining_size = int (length file), yielded = []\<rparr>"
    by (simp add: gen_inv_def)
  from gen_loop_correct [OF assms, where P = "file" and S = "[]" and ae = ae, OF _ this]
  show ?thesis by (simp add: generator_def)
qed


lemma gen_loop_decode_error:
  assumes "remaining_size st > 0"
    and "\<forall>j<MAX_CHAR_BYTES. enc (drop j (chunk_bytes B f st)) = None"
  shows "gen_loop enc ae B f st = Some (yielded st, Some UnicodeDecodeError)"
proof -
  have "decode_retry enc 0 (chunk_bytes B f st) B (chunk_offset B f st) = Inl UnicodeDecodeError"
    using assms(2) by (intro decode_retry_exhausted) (simp_all add: MAX_CHAR_BYTES_def)
  then have "iteration enc ae B f st = Inl UnicodeDecodeError"
    by (simp add: iteration_def)
  with assms(1) show ?thesis
    by (subst gen_loop.simps) simp
qed

lemma iteration_yielded:
  "iteration enc ae B f st = Inr st' \<Longrightarrow> \<exists>ys. yielded st' = yielded st @ ys"
  by (auto simp: iteration_def Let_def split: sum.splits option.splits if_splits prod.splits)

lemma gen_loop_keeps_yielded:
  "gen_loop enc ae B f st = Some res \<Longrightarrow> \<exists>ys. fst res = yielded st @ ys"
proof (erule gen_loop.raw_induct
    [rotated, where P = "\<lambda>enc ae B f st res. \<exists>ys. fst res = yielded st @ ys"], goal_cases)
  case (1 gl enc ae B f st res)
  show ?case
  proof (cases "0 < remaining_size st")
    case True
    show ?thesis
    proof (cases "iteration enc ae B f st")
      case (Inl e)
      with 1(2) True show ?thesis by auto
    next
      case (Inr st')
      with 1(2) True have "gl enc ae B f st' = Some res" by simp
      from 1(1) [OF this] obtain ys where "fst res = yielded st' @ ys" ..
      with iteration_yielded [OF Inr] show ?thesis by auto
    qed
  next
    case False
    with 1(2) show ?thesis by auto
  qed
qed

lemma all_less_4: "(\<forall>j<4::nat. Q j) \<longleftrightarrow> Q 0 \<and> Q 1 \<and> Q 2 \<and> Q 3"
proof
  assume "\<forall>j<4. Q j"
  then show "Q 0 \<and> Q 1 \<and> Q 2 \<and> Q 3" by simp
next
  assume q: "Q 0 \<and> Q 1 \<and> Q 2 \<and> Q 3"
  show "\<forall>j<4. Q j"
  proof (intro allI impI)
    fix j :: nat assume "j < 4"
    then have "j = 0 \<or> j = 1 \<or> j = 2 \<or> j = 3" by arith
    with q show "Q j" by auto
  qed
qed

lemma all_less_2: "(\<forall>j<2::nat. Q j) \<longleftrightarrow> Q 0 \<and> Q 1"
proof
  assume "\<forall>j<2. Q j"
  then show "Q 0 \<and> Q 1" by simp
next
  assume q: "Q 0 \<and> Q 1"
  show "\<forall>j<2. Q j"
  proof (intro allI impI)
    fix j :: nat assume "j < 2"
    then have "j = 0 \<or> j = 1" by arith
    with q show "Q j" by auto
  qed
qed

lemma count_nonempty_lines:
  "l \<noteq> [] \<Longrightarrow> count_list (nonempty_lines xs) l = count_list xs l"
  by (induction xs) (auto simp: nonempty_lines_def)

section \<open>Claims about the reverse reader\<close>




text \<open>
  Claim C2 fails on the code. With \<open>allow_empty_lines = False\<close>, the file
  \<^verbatim>\<open>aaa\n\nbbb\<close> read with buffer size 4 yields its blank line (the pending segment
  flushed in the middle of the stream, line 172), and the file \<^verbatim>\<open>\nabc\<close> yields an
  empty last line (the final flush, line 179). Only the \<^verbatim>\<open>for\<close> loop of lines 174-176
  tests \<open>allow_empty_lines\<close>.
\<close>

theorem blank_line_kept:
  "utf8_decode [0x61, 0x61, 0x61, 0x0A, 0x0A, 0x62, 0x62, 0x62] = Some [97, 97, 97, 10, 10, 98, 98, 98] \<and>
   generator utf8_decode False 4 [0x61, 0x61, 0x61, 0x0A, 0x0A, 0x62, 0x62, 0x62]
     = Some ([[98, 98, 98], [], [97, 97, 97]], None) \<and>
   generator utf8_decode False 8192 [0x0A, 0x61, 0x62, 0x63] = Some ([[97, 98, 99], []], None)"
  by code_simp

text \<open>
  Claim C3. The inner loop makes at most \<open>MAX_CHAR_BYTES = 4\<close> decode attempts. When
  the first attempt that succeeds is the one after \<open>k < 4\<close> failures, the first \<open>k\<close>
  bytes of the chunk have been dropped and \<^verbatim>\<open>cur_buf_size\<close> and \<^verbatim>\<open>offset\<close> have been
  lowered by \<open>k\<close>. When all four attempts fail, the decode error is raised: the generator
  ends with \<^verbatim>\<open>UnicodeDecodeError\<close>, and the lines yielded before are exactly the lines
  yielded so far. Whatever way the generator ends, the lines already yielded stay at the
  front of its output.
\<close>

theorem decode_retry_budget:
  "MAX_CHAR_BYTES = 4 \<and>
   (k < MAX_CHAR_BYTES \<and> (\<forall>j<k. encoding (drop j bs) = None) \<and> encoding (drop k bs) = Some buffer
      \<longrightarrow> decode_retry encoding 0 bs cur off = Inr (buffer, cur - int k, off - int k)) \<and>
   ((\<forall>j<MAX_CHAR_BYTES. encoding (drop j bs) = None)
      \<longrightarrow> decode_retry encoding 0 bs cur off = Inl UnicodeDecodeError) \<and>
   (remaining_size st > 0 \<and> (\<forall>j<MAX_CHAR_BYTES. encoding (drop j (chunk_bytes B f st)) = None)
      \<longrightarrow> gen_loop encoding ae B f st = Some (yielded st, Some UnicodeDecodeError)) \<and>
   (gen_loop encoding ae B f st = Some (out, e) \<longrightarrow> (\<exists>ys. out = yielded st @ ys))"
proof (intro conjI impI)
  show "MAX_CHAR_BYTES = 4" by (simp add: MAX_CHAR_BYTES_def)
next
  assume "k < MAX_CHAR_BYTES \<and> (\<forall>j<k. encoding (drop j bs) = None) \<and> encoding (drop k bs) = Some buffer"
  then show "decode_retry encoding 0 bs cur off = Inr (buffer, cur - int k, off - int k)"
    by (intro decode_retry_least) simp_all
next
  assume "\<forall>j<MAX_CHAR_BYTES. encoding (drop j bs) = None"
  then show "decode_retry encoding 0 bs cur off = Inl UnicodeDecodeError"
    by (intro decode_retry_exhausted) (simp_all add: MAX_CHAR_BYTES_def)
next
  assume "remaining_size st > 0 \<and> (\<forall>j<MAX_CHAR_BYTES. encoding (drop j (chunk_bytes B f st)) = None)"
  then show "gen_loop encoding ae B f st = Some (yielded st, Some UnicodeDecodeError)"
    by (intro gen_loop_decode_error) simp_all
next
  assume "gen_loop encoding ae B f st = Some (out, e)"
  from gen_loop_keeps_yielded [OF this] show "\<exists>ys. out = yielded st @ ys" by simp
qed

text \<open>
  An instance of C3: two stray continuation bytes before \<^verbatim>\<open>a\<close> are dropped; four of
  them exhaust the budget, after the line \<^verbatim>\<open>abc\<close> has been yielded.
\<close>

theorem decode_retry_budget_witness:
  "decode_retry utf8_decode 0 [0x80, 0x80, 0x61] 4 8 = Inr ([97], 2, 6) \<and>
   decode_retry utf8_decode 0 [0x80, 0x80, 0x80, 0x80] 4 8 = Inl UnicodeDecodeError \<and>
   gen_loop utf8_decode False 4 [0x80, 0x80, 0x80, 0x80, 0x0A, 0x61, 0x62, 0x63]
     \<lparr>segment = Some [], offset = 4, remaining_size = 4, yielded = [[97, 98, 99]]\<rparr>
     = Some ([[97, 98, 99]], Some UnicodeDecodeError) \<and>
   generator utf8_decode False 4 [0x80, 0x80, 0x80, 0x80, 0x0A, 0x61, 0x62, 0x63]
     = Some ([[97, 98, 99]], Some UnicodeDecodeError)"
proof -
  let ?st = "\<lparr>segment = Some [], offset = 4, remaining_size = 4, yielded = [[97, 98, 99]]\<rparr>"
  let ?f = "[0x80, 0x80, 0x80, 0x80, 0x0A, 0x61, 0x62, 0x63] :: byte list"
  note dec = utf8_decode.simps utf8_char.simps is_cont_def cont_bits_def
  have h1: "(2::nat) < MAX_CHAR_BYTES \<and> (\<forall>j<2. utf8_decode (drop j [0x80, 0x80, 0x61]) = None)
      \<and> utf8_decode (drop 2 [0x80, 0x80, 0x61]) = Some [97]"
    by (simp add: all_less_2 MAX_CHAR_BYTES_def dec)
  have h2: "\<forall>j<MAX_CHAR_BYTES. utf8_decode (drop j [0x80, 0x80, 0x80, 0x80]) = None"
    by (simp add: all_less_4 MAX_CHAR_BYTES_def dec)
  have c: "chunk_bytes 4 ?f ?st = [0x80, 0x80, 0x80, 0x80]"
    by (simp add: chunk_bytes_def chunk_offset_def read_at_def)
  have h3: "remaining_size ?st > 0 \<and> (\<forall>j<MAX_CHAR_BYTES. utf8_decode (drop j (chunk_bytes 4 ?f ?st)) = None)"
    unfolding c using h2 by simp
  have g: "generator utf8_decode False 4 ?f = Some ([[97, 98, 99]], Some UnicodeDecodeError)"
    by code_simp
  note t = decode_retry_budget [where encoding = utf8_decode and cur = 4 and off = 8]
  from t [where k = 2 and bs = "[0x80, 0x80, 0x61]" and buffer = "[97]"] h1
  have r1: "decode_retry utf8_decode 0 [0x80, 0x80, 0x61] 4 8 = Inr ([97], 2, 6)" by simp
  from t [where bs = "[0x80, 0x80, 0x80, 0x80]"] h2
  have r2: "decode_retry utf8_decode 0 [0x80, 0x80, 0x80, 0x80] 4 8 = Inl UnicodeDecodeError" by blast
  from t [where st = ?st and B = 4 and f = ?f and ae = False] h3
  have r3: "gen_loop utf8_decode False 4 ?f ?st = Some ([[97, 98, 99]], Some UnicodeDecodeError)"
    by simp
  from r1 r2 r3 g show ?thesis by (intro conjI)
qed

text \<open>
  Claim C4. An empty file yields nothing and raises nothing. For a non-empty well-formed
  file and a legal buffer size, the generator ends normally and the last line it yields
  is the first line of the file (the whole file when it has no line break); the non-empty
  lines before it are exactly the other non-empty lines of the file, so when the first
  line is not empty it occurs in the output as often as it occurs in the file.
\<close>

theorem first_line_flushed_last:
  "generator encoding allow_empty_lines B [] = Some ([], None) \<and>
   (utf8_decode f = Some txt \<and> f \<noteq> [] \<and> 4 \<le> B \<longrightarrow>
      (\<exists>out. generator utf8_decode allow_empty_lines B f = Some (out @ [hd (split txt)], None) \<and>
             nonempty_lines out = rev (nonempty_lines (tl (split txt))) \<and>
             (hd (split txt) \<noteq> [] \<longrightarrow>
                count_list (out @ [hd (split txt)]) (hd (split txt))
                  = count_list (split txt) (hd (split txt)))))"
proof (intro conjI impI)
  show "generator encoding allow_empty_lines B [] = Some ([], None)"
    by (rule generator_empty)
next
  assume a: "utf8_decode f = Some txt \<and> f \<noteq> [] \<and> 4 \<le> B"
  then have "utf8_decode f = Some txt" "4 \<le> B" "f \<noteq> []" by simp_all
  from generator_wellformed [OF this, of allow_empty_lines] obtain out where
    g: "generator utf8_decode allow_empty_lines B f = Some (out @ [hd (split txt)], None)"
    and n: "nonempty_lines out = rev (nonempty_lines (tl (split txt)))"
    by blast
  have "hd (split txt) \<noteq> [] \<longrightarrow>
      count_list (out @ [hd (split txt)]) (hd (split txt))
        = count_list (split txt) (hd (split txt))"
  proof
    assume ne: "hd (split txt) \<noteq> []"
    let ?l = "hd (split txt)"
    have "count_list out ?l = count_list (nonempty_lines out) ?l"
      using ne by (simp add: count_nonempty_lines)
    also have "\<dots> = count_list (nonempty_lines (tl (split txt))) ?l"
      by (simp add: n)
    also have "\<dots> = count_list (tl (split txt)) ?l"
      using ne by (simp add: count_nonempty_lines)
    finally have "count_list (out @ [?l]) ?l = count_list (?l # tl (split txt)) ?l"
      by simp
    then show "count_list (out @ [?l]) ?l = count_list (split txt) ?l"
      by (simp add: split_not_Nil)
  qed
  with g n show "\<exists>out. generator utf8_decode allow_empty_lines B f = Some (out @ [hd (split txt)], None) \<and>
             nonempty_lines out = rev (nonempty_lines (tl (split txt))) \<and>
             (hd (split txt) \<noteq> [] \<longrightarrow>
                count_list (out @ [hd (split txt)]) (hd (split txt))
                  = count_list (split txt) (hd (split txt)))"
    by blast
qed

text \<open>
  An instance of C4: the file \<^verbatim>\<open>ab\ncd\nab\<close>, without a final line break, read with
  buffer size 5.
\<close>

theorem first_line_flushed_last_witness:
  "utf8_decode [0x61, 0x62, 0x0A, 0x63, 0x64, 0x0A, 0x61, 0x62] = Some [97, 98, 10, 99, 100, 10, 97, 98] \<and>
   hd (split [97, 98, 10, 99, 100, 10, 97, 98]) = [97, 98] \<and>
   (\<exists>out. generator utf8_decode False 5 [0x61, 0x62, 0x0A, 0x63, 0x64, 0x0A, 0x61, 0x62]
            = Some (out @ [[97, 98]], None) \<and>
          nonempty_lines out = rev (nonempty_lines (tl (split [97, 98, 10, 99, 100, 10, 97, 98]))) \<and>
          count_list (out @ [[97, 98]]) [97, 98] = 2)"
proof -
  let ?f = "[0x61, 0x62, 0x0A, 0x63, 0x64, 0x0A, 0x61, 0x62] :: byte list"
  let ?t = "[97, 98, 10, 99, 100, 10, 97, 98] :: str"
  have d: "utf8_decode ?f = Some ?t" by code_simp
  have s: "split ?t = [[97, 98], [99, 100], [97, 98]]" by code_simp
  have h: "utf8_decode ?f = Some ?t \<and> ?f \<noteq> [] \<and> (4::int) \<le> 5" using d by simp
  note t = first_line_flushed_last [of utf8_decode False 5 "?f" "?t"]
  from t h
  obtain out where "generator utf8_decode False 5 ?f = Some (out @ [hd (split ?t)], None)"
    "nonempty_lines out = rev (nonempty_lines (tl (split ?t)))"
    "hd (split ?t) \<noteq> [] \<longrightarrow> count_list (out @ [hd (split ?t)]) (hd (split ?t)) = count_list (split ?t) (hd (split ?t))"
    by blast
  then have "generator utf8_decode False 5 ?f = Some (out @ [[97, 98]], None)"
    "nonempty_lines out = rev (nonempty_lines (tl (split ?t)))"
    "count_list (out @ [[97, 98]]) [97, 98] = 2"
    unfolding s by simp_all
  with d s show ?thesis by auto
qed

text \<open>
  Claim C7. With \<open>buffer_size < MAX_CHAR_BYTES = 4\<close>, \<^verbatim>\<open>reverse_open\<close> raises
  \<^verbatim>\<open>ValueError\<close> and leaves the world as it was: the file is not opened and nothing is
  logged. With \<open>buffer_size \<ge> 4\<close> it does not raise \<^verbatim>\<open>ValueError\<close>: it goes on to open the
  file in mode \<^verbatim>\<open>rb\<close>.
\<close>

theorem reverse_open_buffer_size:
  "(buffer_size < 4 \<longrightarrow>
      reverse_open w p encoding allow_empty_lines buffer_size = (Inl ValueError, w)) \<and>
   (4 \<le> buffer_size \<longrightarrow>
      fst (reverse_open w p encoding allow_empty_lines buffer_size) \<noteq> Inl ValueError \<and>
      io_log (snd (reverse_open w p encoding allow_empty_lines buffer_size))
        = io_log w @ [Opened p ''rb''])"
  by (auto simp: reverse_open_def MAX_CHAR_BYTES_def builtin_open_def valid_mode_def Let_def
      split: option.splits)

text \<open>
  An instance of C7: buffer sizes 3 and 4 on a one-byte file.
\<close>

theorem reverse_open_buffer_size_witness:
  "reverse_open \<lparr>files = (\<lambda>_. None)(''f'' := Some [0x61]), io_log = []\<rparr> ''f'' utf8_decode False 3
     = (Inl ValueError, \<lparr>files = (\<lambda>_. None)(''f'' := Some [0x61]), io_log = []\<rparr>) \<and>
   fst (reverse_open \<lparr>files = (\<lambda>_. None)(''f'' := Some [0x61]), io_log = []\<rparr> ''f'' utf8_decode False 4)
     \<noteq> Inl ValueError \<and>
   io_log (snd (reverse_open \<lparr>files = (\<lambda>_. None)(''f'' := Some [0x61]), io_log = []\<rparr> ''f'' utf8_decode False 4))
     = [Opened ''f'' ''rb'']"
proof -
  let ?w = "\<lparr>files = (\<lambda>_. None)(''f'' := Some [0x61::byte]), io_log = []\<rparr>"
  have a: "(3::int) < 4" and b: "(4::int) \<le> 4" by simp_all
  from reverse_open_buffer_size [of 3 ?w "''f''" utf8_decode False] a
  have 1: "reverse_open ?w ''f'' utf8_decode False 3 = (Inl ValueError, ?w)" by blast
  from reverse_open_buffer_size [of 4 ?w "''f''" utf8_decode False] b
  have 2: "fst (reverse_open ?w ''f'' utf8_decode False 4) \<noteq> Inl ValueError"
    and 3: "io_log (snd (reverse_open ?w ''f'' utf8_decode False 4)) = io_log ?w @ [Opened ''f'' ''rb'']"
    by blast+
  from 1 2 3 show ?thesis by simp
qed

text \<open>
  Claim C10. On every reader, \<^verbatim>\<open>__next__\<close> and \<^verbatim>\<open>readline\<close> take the same step of the
  generator and leave the reader in the same state; they raise the same exception when
  the generator raises, and when it yields a line, \<^verbatim>\<open>readline\<close> returns that line and
  \<^verbatim>\<open>__next__\<close> returns it with one newline character appended, whatever the line is.
\<close>

theorem next_appends_newline:
  "ReverseReadlineFile_next r =
     map_option (\<lambda>(res, r'). (map_sum id (\<lambda>line. line @ [NL]) res, r'))
       (ReverseReadlineFile_readline r)"
  by (simp add: ReverseReadlineFile_next_def ReverseReadlineFile_readline_def
      split: option.splits sum.splits prod.splits)

text \<open>
  An instance of C10: the file \<^verbatim>\<open>ab\ncd\<close> has no final line break; its first line is
  the last one the reader produces, as \<^verbatim>\<open>ab\<close> by \<^verbatim>\<open>readline\<close> and as \<^verbatim>\<open>ab\n\<close> by
  \<^verbatim>\<open>__next__\<close>.
\<close>

theorem next_appends_newline_witness:
  "fst (reverse_open \<lparr>files = (\<lambda>_. None)(''f'' := Some [0x61, 0x62, 0x0A, 0x63, 0x64]), io_log = []\<rparr>
          ''f'' utf8_decode False 4)
     = Inr \<lparr>rr_fp = \<lparr>h_path = ''f'', h_mode = ''rb'', h_data = [0x61, 0x62, 0x0A, 0x63, 0x64]\<rparr>,
            rr_fp_closed = False,
            rr_gen = Some ([[99, 100], [97, 98]], None)\<rparr> \<and>
   ReverseReadlineFile_readline
       \<lparr>rr_fp = \<lparr>h_path = ''f'', h_mode = ''rb'', h_data = [0x61, 0x62, 0x0A, 0x63, 0x64]\<rparr>,
        rr_fp_closed = False, rr_gen = Some ([[97, 98]], None)\<rparr>
     = Some (Inr [97, 98],
         \<lparr>rr_fp = \<lparr>h_path = ''f'', h_mode = ''rb'', h_data = [0x61, 0x62, 0x0A, 0x63, 0x64]\<rparr>,
          rr_fp_closed = False, rr_gen = Some ([], None)\<rparr>) \<and>
   ReverseReadlineFile_next
       \<lparr>rr_fp = \<lparr>h_path = ''f'', h_mode = ''rb'', h_data = [0x61, 0x62, 0x0A, 0x63, 0x64]\<rparr>,
        rr_fp_closed = False, rr_gen = Some ([[97, 98]], None)\<rparr>
     = Some (Inr [97, 98, 10],
         \<lparr>rr_fp = \<lparr>h_path = ''f'', h_mode = ''rb'', h_data = [0x61, 0x62, 0x0A, 0x63, 0x64]\<rparr>,
          rr_fp_closed = False, rr_gen = Some ([], None)\<rparr>)"
proof -
  let ?d = "[0x61, 0x62, 0x0A, 0x63, 0x64] :: byte list"
  let ?h = "\<lparr>h_path = ''f'', h_mode = ''rb'', h_data = ?d\<rparr>"
  let ?r = "\<lparr>rr_fp = ?h, rr_fp_closed = False, rr_gen = Some ([[97, 98]], None)\<rparr>"
  let ?r' = "\<lparr>rr_fp = ?h, rr_fp_closed = False, rr_gen = Some ([], None)\<rparr>"
  have g: "generator utf8_decode False 4 ?d = Some ([[99, 100], [97, 98]], None)"
    by code_simp
  have o: "fst (reverse_open \<lparr>files = (\<lambda>_. None)(''f'' := Some ?d), io_log = []\<rparr> ''f'' utf8_decode False 4)
     = Inr \<lparr>rr_fp = ?h, rr_fp_closed = False, rr_gen = Some ([[99, 100], [97, 98]], None)\<rparr>"
    by (simp add: reverse_open_def MAX_CHAR_BYTES_def builtin_open_def valid_mode_def Let_def g)
  have l: "ReverseReadlineFile_readline ?r = Some (Inr [97, 98], ?r')"
    by (simp add: ReverseReadlineFile_readline_def next_gen_def)
  from next_appends_newline [of ?r] l
  have n: "ReverseReadlineFile_next ?r = Some (Inr [97, 98, 10], ?r')"
    by (simp add: NL_def)
  from o l n show ?thesis by (intro conjI)
qed

section \<open>Claims about the progress wrapper\<close>

lemma line_prefix_length:
  "length (takeWhile Q xs @ take 1 (dropWhile Q xs)) = min (Suc (length (takeWhile Q xs))) (length xs)"
proof -
  have "length (takeWhile Q xs) + length (dropWhile Q xs) = length xs"
    by (metis length_append takeWhile_dropWhile_id)
  then show ?thesis by (simp add: min_def)
qed

lemma reported_snoc: "reported (es @ [Advance k]) = reported es + k"
proof (induction es)
  case Nil
  show ?case by simp
next
  case (Cons e es)
  then show ?case by (cases e) simp_all
qed

lemma tqdm_update_facts:
  "bar_log (tqdm_update b k) = bar_log b @ [Advance k]"
  "bar_total (tqdm_update b k) = bar_total b"
  "tqdm_disabled (tqdm_update b k) = tqdm_disabled b"
  "\<not> tqdm_disabled b \<Longrightarrow> bar_n (tqdm_update b k) = bar_n b + k"
  by (simp_all add: tqdm_update_def tqdm_disabled_def)

lemma BufferedReader_read_bytes:
  "BufferedReader_read r sz = (Inr ret, r') \<Longrightarrow> reads_bytes r (length ret) r'"
  by (auto simp: BufferedReader_read_def reads_bytes_def consume_def unread_def Let_def
      split: if_splits)

lemma BufferedReader_read1_bytes:
  "BufferedReader_read1 r sz ra = (Inr ret, r') \<Longrightarrow> reads_bytes r (length ret) r'"
  by (auto simp: BufferedReader_read1_def reads_bytes_def consume_def unread_def Let_def
      split: if_splits)

lemma BufferedReader_readinto_bytes:
  "BufferedReader_readinto r len_b = (Inr ret, r') \<Longrightarrow> 0 \<le> ret \<and> reads_bytes r (nat ret) r'"
  by (auto simp: BufferedReader_readinto_def reads_bytes_def consume_def unread_def Let_def
      split: if_splits)

lemma BufferedReader_readline_bytes:
  assumes "BufferedReader_readline r sz = (Inr ret, r')"
  shows "reads_bytes r (length ret) r'"
proof -
  define line where
    "line = takeWhile (\<lambda>b. b \<noteq> 0x0A) (unread r) @ take 1 (dropWhile (\<lambda>b. b \<noteq> 0x0A) (unread r))"
  have l: "length line \<le> length (raw_data r) - raw_pos r"
    unfolding line_def line_prefix_length by (simp add: unread_def)
  from assms have ret: "ret = (if sz < 0 then line else take (nat sz) line)"
    and r': "r' = consume r ret"
    by (auto simp: BufferedReader_readline_def Let_def line_def split: if_splits)
  have "length (take (nat sz) line) \<le> length line" by simp
  with ret l have "length ret \<le> length (raw_data r) - raw_pos r"
    by (cases "sz < 0") simp_all
  with r' show ?thesis by (simp add: reads_bytes_def consume_def)
qed

lemma do_read_Inr:
  assumes "do_read c r = (Inr k, r')"
  shows "raw_pos r' = raw_pos r + k" and "raw_data r' = raw_data r"
    and "k \<le> length (raw_data r) - raw_pos r"
    and "progress_bar r' = tqdm_update (progress_bar r) (int k)"
    and "raw_closed r' = raw_closed r"
proof -
  have "raw_pos r' = raw_pos r + k \<and> raw_data r' = raw_data r \<and>
      k \<le> length (raw_data r) - raw_pos r \<and> progress_bar r' = tqdm_update (progress_bar r) (int k)"
  proof (cases c)
    case (Read sz)
    with assms obtain ret r1 where "BufferedReader_read r sz = (Inr ret, r1)"
      "k = length ret" "r' = update_bar r1 (int (length ret))"
      by (auto simp: returned_def ProgressBufferedReader_read_def split: prod.splits sum.splits)
    with BufferedReader_read_bytes [of r sz ret r1] show ?thesis
      by (simp add: reads_bytes_def update_bar_def)
  next
    case (Read1 sz ra)
    with assms obtain ret r1 where "BufferedReader_read1 r sz ra = (Inr ret, r1)"
      "k = length ret" "r' = update_bar r1 (int (length ret))"
      by (auto simp: returned_def ProgressBufferedReader_read1_def split: prod.splits sum.splits)
    with BufferedReader_read1_bytes [of r sz ra ret r1] show ?thesis
      by (simp add: reads_bytes_def update_bar_def)
  next
    case (ReadInto len_b)
    with assms obtain ret r1 where "BufferedReader_readinto r len_b = (Inr ret, r1)"
      "k = nat ret" "r' = update_bar r1 ret"
      by (auto simp: ProgressBufferedReader_readinto_def split: prod.splits sum.splits)
    with BufferedReader_readinto_bytes [of r len_b ret r1] show ?thesis
      by (simp add: reads_bytes_def update_bar_def)
  next
    case (ReadLine sz)
    with assms obtain ret r1 where "BufferedReader_readline r sz = (Inr ret, r1)"
      "k = length ret" "r' = update_bar r1 (int (length ret))"
      by (auto simp: returned_def ProgressBufferedReader_readline_def split: prod.splits sum.splits)
    with BufferedReader_readline_bytes [of r sz ret r1] show ?thesis
      by (simp add: reads_bytes_def update_bar_def)
  qed
  then show "raw_pos r' = raw_pos r + k" and "raw_data r' = raw_data r"
    and "k \<le> length (raw_data r) - raw_pos r"
    and "progress_bar r' = tqdm_update (progress_bar r) (int k)"
    by simp_all
  from assms show "raw_closed r' = raw_closed r"
    by (cases c)
      (auto simp: returned_def ProgressBufferedReader_read_def ProgressBufferedReader_read1_def
        ProgressBufferedReader_readinto_def ProgressBufferedReader_readline_def
        BufferedReader_read_def BufferedReader_read1_def BufferedReader_readinto_def
        BufferedReader_readline_def update_bar_def consume_def Let_def
        split: prod.splits sum.splits if_splits)
qed

lemma do_read_Inl: "do_read c r = (Inl e, r') \<Longrightarrow> r' = r"
  by (cases c)
    (auto simp: returned_def ProgressBufferedReader_read_def ProgressBufferedReader_read1_def
      ProgressBufferedReader_readinto_def ProgressBufferedReader_readline_def
      BufferedReader_read_def BufferedReader_read1_def BufferedReader_readinto_def
      BufferedReader_readline_def Let_def split: prod.splits sum.splits if_splits)

text \<open>On an open reader a read-family call with a legal size does not raise.\<close>

lemma do_read_open:
  assumes "\<not> raw_closed r" and "\<forall>sz. c = Read sz \<longrightarrow> - 1 \<le> sz"
  shows "\<exists>k r'. do_read c r = (Inr k, r')"
  using assms
  by (cases c)
    (auto simp: returned_def ProgressBufferedReader_read_def ProgressBufferedReader_read1_def
      ProgressBufferedReader_readinto_def ProgressBufferedReader_readline_def
      BufferedReader_read_def BufferedReader_read1_def BufferedReader_readinto_def
      BufferedReader_readline_def Let_def)

lemma do_read_amounts:
  assumes "\<not> raw_closed r"
  shows "fst (do_read (Read (- 1)) r) = Inr (length (unread r))"
    and "fst (do_read (Read (int n)) r) = Inr (min n (length (unread r)))"
    and "fst (do_read (Read1 (int n) 0) r) = Inr (min n (length (unread r)))"
    and "fst (do_read (ReadInto n) r) = Inr (min n (length (unread r)))"
    and "fst (do_read (ReadLine (- 1)) r)
           = Inr (min (Suc (length (takeWhile (\<lambda>b. b \<noteq> 0x0A) (unread r)))) (length (unread r)))"
proof -
  show "fst (do_read (Read (- 1)) r) = Inr (length (unread r))"
    using assms
    by (simp add: returned_def ProgressBufferedReader_read_def BufferedReader_read_def Let_def)
  show "fst (do_read (Read (int n)) r) = Inr (min n (length (unread r)))"
    using assms
    by (simp add: returned_def ProgressBufferedReader_read_def BufferedReader_read_def Let_def
        min.commute)
  show "fst (do_read (Read1 (int n) 0) r) = Inr (min n (length (unread r)))"
    using assms
    by (simp add: returned_def ProgressBufferedReader_read1_def BufferedReader_read1_def Let_def
        min.commute)
  show "fst (do_read (ReadInto n) r) = Inr (min n (length (unread r)))"
    using assms
    by (simp add: ProgressBufferedReader_readinto_def BufferedReader_readinto_def Let_def
        min.commute)
  have "length (takeWhile (\<lambda>b. b \<noteq> 0x0A) (unread r) @ take 1 (dropWhile (\<lambda>b. b \<noteq> 0x0A) (unread r)))
      = min (Suc (length (takeWhile (\<lambda>b. b \<noteq> 0x0A) (unread r)))) (length (unread r))"
    by (rule line_prefix_length)
  then show "fst (do_read (ReadLine (- 1)) r)
           = Inr (min (Suc (length (takeWhile (\<lambda>b. b \<noteq> 0x0A) (unread r)))) (length (unread r)))"
    using assms
    by (simp add: returned_def ProgressBufferedReader_readline_def BufferedReader_readline_def
        Let_def del: length_append)
qed

lemma run_reads_total:
  "run_reads cs r = (tot, r1) \<Longrightarrow> raw_pos r \<le> length (raw_data r) \<Longrightarrow>
   reported (bar_log (progress_bar r1)) = reported (bar_log (progress_bar r)) + int tot \<and>
   raw_pos r1 = raw_pos r + tot \<and> raw_pos r1 \<le> length (raw_data r1) \<and>
   raw_data r1 = raw_data r \<and> bar_total (progress_bar r1) = bar_total (progress_bar r) \<and>
   (\<not> tqdm_disabled (progress_bar r) \<longrightarrow>
      bar_n (progress_bar r1) = bar_n (progress_bar r) + int tot)"
proof (induction cs arbitrary: r tot r1)
  case Nil
  then show ?case by simp
next
  case (Cons c cs)
  obtain res r' where d: "do_read c r = (res, r')" by (cases "do_read c r")
  show ?case
  proof (cases res)
    case (Inl e)
    with d have "r' = r" by (simp add: do_read_Inl)
    with Cons.prems(1) d Inl have "run_reads cs r = (tot, r1)" by simp
    from Cons.IH [OF this Cons.prems(2)] show ?thesis .
  next
    case (Inr k)
    obtain later r'' where rr: "run_reads cs r' = (later, r'')" by (cases "run_reads cs r'")
    with Cons.prems(1) d Inr have t: "tot = k + later" "r1 = r''" by simp_all
    note dr = do_read_Inr [OF d [unfolded Inr]]
    have "raw_pos r' \<le> length (raw_data r')" using dr Cons.prems(2) by simp
    from Cons.IH [OF rr this] dr(1,2,4) t show ?thesis
      by (auto simp: tqdm_update_facts reported_snoc)
  qed
qed

lemma update_on_closed_bar: "bar_n (tqdm_update (tqdm_close b) k) = bar_n b"
  by (simp add: tqdm_update_def tqdm_close_def tqdm_disabled_def)

text \<open>
  Claim C5. On an open reader every read-family call with a legal size returns, and it
  returns the next bytes of the file: all of them for \<^verbatim>\<open>read(-1)\<close>, at most \<open>n\<close> for
  \<^verbatim>\<open>read(n)\<close>, \<^verbatim>\<open>read1(n)\<close> and \<^verbatim>\<open>readinto\<close> of an \<open>n\<close>-byte buffer, and the bytes up to
  and with the first line break for \<^verbatim>\<open>readline()\<close>. A call that returns \<open>k\<close> bytes moves
  the read position by \<open>k\<close> and reports exactly \<open>k\<close> to the bar (one \<^verbatim>\<open>update(k)\<close>), which
  advances the bar's position by \<open>k\<close> when the bar is not disabled. After any sequence of
  read-family calls on a newly made wrapper, the sum of the reported advances is the
  total number of bytes the calls returned; it is the read position and at most the bar's
  total, which is the size of the file; a bar that is not disabled stands at its initial
  position plus that sum. A seek that returns \<open>ret\<close> sets the bar's position to \<open>ret\<close> and
  then asks for a refresh, and an absolute seek to \<open>off \<ge> 0\<close> on an open reader returns
  \<open>off\<close>.
\<close>

theorem progress_accounting:
  "(\<not> raw_closed r \<and> (\<forall>sz. c = Read sz \<longrightarrow> - 1 \<le> sz) \<longrightarrow>
      (\<exists>k r'. do_read c r = (Inr k, r') \<and> raw_pos r' = raw_pos r + k \<and>
         k \<le> length (unread r) \<and>
         bar_log (progress_bar r') = bar_log (progress_bar r) @ [Advance (int k)] \<and>
         (\<not> tqdm_disabled (progress_bar r) \<longrightarrow>
            bar_n (progress_bar r') = bar_n (progress_bar r) + int k))) \<and>
   (\<not> raw_closed r \<longrightarrow>
      fst (do_read (Read (- 1)) r) = Inr (length (unread r)) \<and>
      fst (do_read (Read (int n)) r) = Inr (min n (length (unread r))) \<and>
      fst (do_read (Read1 (int n) 0) r) = Inr (min n (length (unread r))) \<and>
      fst (do_read (ReadInto n) r) = Inr (min n (length (unread r))) \<and>
      fst (do_read (ReadLine (- 1)) r)
        = Inr (min (Suc (length (takeWhile (\<lambda>b. b \<noteq> 0x0A) (unread r)))) (length (unread r)))) \<and>
   (ProgressBufferedReader_init raw buf_size kwargs = Inr r0 \<and> run_reads cs r0 = (tot, r1) \<longrightarrow>
      reported (bar_log (progress_bar r1)) = int tot \<and>
      raw_pos r1 = tot \<and>
      int tot \<le> bar_total (progress_bar r1) \<and>
      bar_total (progress_bar r1) = int (length raw) \<and>
      (\<not> tqdm_disabled (progress_bar r0) \<longrightarrow>
         bar_n (progress_bar r1) = bar_n (progress_bar r0) + int tot)) \<and>
   (ProgressBufferedReader_seek r off whence = (Inr ret, r2) \<longrightarrow>
      bar_n (progress_bar r2) = ret \<and>
      bar_log (progress_bar r2) = bar_log (progress_bar r) @ [SetPosition ret, Refresh]) \<and>
   (\<not> raw_closed r \<and> 0 \<le> off \<longrightarrow>
      (\<exists>r3. ProgressBufferedReader_seek r off 0 = (Inr off, r3) \<and> raw_pos r3 = nat off \<and>
         bar_n (progress_bar r3) = off))"
proof (intro conjI impI)
  assume a: "\<not> raw_closed r \<and> (\<forall>sz. c = Read sz \<longrightarrow> - 1 \<le> sz)"
  then obtain k r' where d: "do_read c r = (Inr k, r')"
    using do_read_open [of r c] by blast
  note dr = do_read_Inr [OF d]
  have "k \<le> length (unread r)" using dr(3) by (simp add: unread_def)
  moreover have "bar_log (progress_bar r') = bar_log (progress_bar r) @ [Advance (int k)]"
    using dr(4) by (simp add: tqdm_update_facts)
  moreover have "\<not> tqdm_disabled (progress_bar r) \<longrightarrow>
      bar_n (progress_bar r') = bar_n (progress_bar r) + int k"
    using dr(4) by (simp add: tqdm_update_facts)
  ultimately show "\<exists>k r'. do_read c r = (Inr k, r') \<and> raw_pos r' = raw_pos r + k \<and>
         k \<le> length (unread r) \<and>
         bar_log (progress_bar r') = bar_log (progress_bar r) @ [Advance (int k)] \<and>
         (\<not> tqdm_disabled (progress_bar r) \<longrightarrow>
            bar_n (progress_bar r') = bar_n (progress_bar r) + int k)"
    using d dr(1) by blast
next
  assume o: "\<not> raw_closed r"
  from do_read_amounts [OF o]
  show "fst (do_read (Read (- 1)) r) = Inr (length (unread r))"
    and "fst (do_read (Read (int n)) r) = Inr (min n (length (unread r)))"
    and "fst (do_read (Read1 (int n) 0) r) = Inr (min n (length (unread r)))"
    and "fst (do_read (ReadInto n) r) = Inr (min n (length (unread r)))"
    and "fst (do_read (ReadLine (- 1)) r)
        = Inr (min (Suc (length (takeWhile (\<lambda>b. b \<noteq> 0x0A) (unread r)))) (length (unread r)))"
    by simp_all
next
  assume a: "ProgressBufferedReader_init raw buf_size kwargs = Inr r0 \<and> run_reads cs r0 = (tot, r1)"
  then have r0: "raw_pos r0 = 0" "raw_data r0 = raw" "bar_log (progress_bar r0) = []"
    "bar_total (progress_bar r0) = int (length raw)"
    by (auto simp: ProgressBufferedReader_init_def split: if_splits)
  from a have "run_reads cs r0 = (tot, r1)" by simp
  from run_reads_total [OF this] r0
  have f: "reported (bar_log (progress_bar r1)) = int tot" "raw_pos r1 = tot"
    "raw_pos r1 \<le> length (raw_data r1)" "raw_data r1 = raw"
    "bar_total (progress_bar r1) = int (length raw)"
    "\<not> tqdm_disabled (progress_bar r0) \<longrightarrow>
       bar_n (progress_bar r1) = bar_n (progress_bar r0) + int tot"
    by auto
  from f show "reported (bar_log (progress_bar r1)) = int tot" and "raw_pos r1 = tot"
    and "int tot \<le> bar_total (progress_bar r1)"
    and "bar_total (progress_bar r1) = int (length raw)"
    by auto
  assume "\<not> tqdm_disabled (progress_bar r0)"
  with f(6) show "bar_n (progress_bar r1) = bar_n (progress_bar r0) + int tot" by simp
next
  assume "ProgressBufferedReader_seek r off whence = (Inr ret, r2)"
  then show "bar_n (progress_bar r2) = ret"
    and "bar_log (progress_bar r2) = bar_log (progress_bar r) @ [SetPosition ret, Refresh]"
    by (auto simp: ProgressBufferedReader_seek_def BufferedReader_seek_def Let_def tqdm_refresh_def
        tqdm_set_n_def split: prod.splits sum.splits if_splits)
next
  assume "\<not> raw_closed r \<and> 0 \<le> off"
  then show "\<exists>r3. ProgressBufferedReader_seek r off 0 = (Inr off, r3) \<and> raw_pos r3 = nat off \<and>
         bar_n (progress_bar r3) = off"
    by (simp add: ProgressBufferedReader_seek_def BufferedReader_seek_def Let_def tqdm_refresh_def
        tqdm_set_n_def)
qed

text \<open>
  An instance of C5 on a three-byte file \<^verbatim>\<open>a\nb\<close>: each of the read-family calls on
  the new wrapper, a sequence of four calls that returns three bytes in all, and a seek to
  position 1.
\<close>

theorem progress_accounting_witness:
  "\<exists>r0 r1 r2 r3 r4 r5 r6 r7.
     ProgressBufferedReader_init [0x61, 0x0A, 0x62] 8192 (\<lambda>_. None) = Inr r0 \<and>
     do_read (Read 2) r0 = (Inr 2, r1) \<and> bar_n (progress_bar r1) = 2 \<and>
     bar_log (progress_bar r1) = [Advance 2] \<and>
     do_read (Read (- 1)) r0 = (Inr 3, r2) \<and> bar_n (progress_bar r2) = 3 \<and>
     do_read (Read1 2 0) r0 = (Inr 2, r3) \<and> bar_n (progress_bar r3) = 2 \<and>
     do_read (ReadInto 4) r0 = (Inr 3, r4) \<and> bar_n (progress_bar r4) = 3 \<and>
     do_read (ReadLine (- 1)) r0 = (Inr 2, r5) \<and> bar_n (progress_bar r5) = 2 \<and>
     run_reads [ReadLine (- 1), Read1 10 0, Read (- 1), ReadInto 4] r0 = (3, r6) \<and>
     reported (bar_log (progress_bar r6)) = 3 \<and> bar_n (progress_bar r6) = 3 \<and>
     bar_total (progress_bar r6) = 3 \<and>
     ProgressBufferedReader_seek r0 1 0 = (Inr 1, r7) \<and> bar_n (progress_bar r7) = 1 \<and>
     bar_log (progress_bar r7) = [SetPosition 1, Refresh]"
proof -
  let ?raw = "[0x61, 0x0A, 0x62] :: byte list"
  let ?kw = "(\<lambda>_. None) :: string \<Rightarrow> pyval option"
  define r0 where "r0 = \<lparr>raw_data = ?raw, raw_pos = 0, raw_closed = False, bufsize = 8192,
      progress_bar = \<lparr>bar_n = 0, bar_total = 3, bar_kwargs = ?kw, bar_closed = False, bar_log = []\<rparr>\<rparr>"
  have i: "ProgressBufferedReader_init ?raw 8192 ?kw = Inr r0"
    by (simp add: ProgressBufferedReader_init_def r0_def)
  have o: "\<not> raw_closed r0" and e: "\<not> tqdm_disabled (progress_bar r0)"
    and u: "unread r0 = ?raw" and b0: "bar_n (progress_bar r0) = 0" "bar_log (progress_bar r0) = []"
    by (simp_all add: r0_def tqdm_disabled_def unread_def)
  note each = progress_accounting [THEN conjunct1, rule_format, where r = r0]
  note amount = progress_accounting [THEN conjunct2, THEN conjunct1, rule_format, where r = r0, OF o]
  note seq = progress_accounting [THEN conjunct2, THEN conjunct2, THEN conjunct1, rule_format]
  note seek = progress_accounting [THEN conjunct2, THEN conjunct2, THEN conjunct2, THEN conjunct1, rule_format]
  note seek0 = progress_accounting [THEN conjunct2, THEN conjunct2, THEN conjunct2, THEN conjunct2, rule_format]
  have a1: "fst (do_read (Read 2) r0) = Inr 2"
    using amount [where n = 2] by (simp add: u)
  have a2: "fst (do_read (Read (- 1)) r0) = Inr 3"
    using amount by (simp add: u)
  have a3: "fst (do_read (Read1 2 0) r0) = Inr 2"
    using amount [where n = 2] by (simp add: u)
  have a4: "fst (do_read (ReadInto 4) r0) = Inr 3"
    using amount [where n = 4] by (simp add: u)
  have a5: "fst (do_read (ReadLine (- 1)) r0) = Inr 2"
    using amount by (simp add: u)
  from each [where c = "Read 2"] o a1 e b0 obtain r1 where
    1: "do_read (Read 2) r0 = (Inr 2, r1)" "bar_n (progress_bar r1) = 2"
      "bar_log (progress_bar r1) = [Advance 2]"
    by fastforce
  from each [where c = "Read (- 1)"] o a2 e b0 obtain r2 where
    2: "do_read (Read (- 1)) r0 = (Inr 3, r2)" "bar_n (progress_bar r2) = 3"
    by fastforce
  from each [where c = "Read1 2 0"] o a3 e b0 obtain r3 where
    3: "do_read (Read1 2 0) r0 = (Inr 2, r3)" "bar_n (progress_bar r3) = 2"
    by fastforce
  from each [where c = "ReadInto 4"] o a4 e b0 obtain r4 where
    4: "do_read (ReadInto 4) r0 = (Inr 3, r4)" "bar_n (progress_bar r4) = 3"
    by fastforce
  from each [where c = "ReadLine (- 1)"] o a5 e b0 obtain r5 where
    5: "do_read (ReadLine (- 1)) r0 = (Inr 2, r5)" "bar_n (progress_bar r5) = 2"
    by fastforce
  note defs = returned_def ProgressBufferedReader_read_def ProgressBufferedReader_read1_def
    ProgressBufferedReader_readinto_def ProgressBufferedReader_readline_def
    BufferedReader_read_def BufferedReader_read1_def
    BufferedReader_readinto_def BufferedReader_readline_def
    update_bar_def tqdm_update_def tqdm_disabled_def consume_def unread_def Let_def
  have "fst (run_reads [ReadLine (- 1), Read1 10 0, Read (- 1), ReadInto 4] r0) = 3"
    by (simp add: r0_def defs)
  then obtain r6 where rr: "run_reads [ReadLine (- 1), Read1 10 0, Read (- 1), ReadInto 4] r0 = (3, r6)"
    by (cases "run_reads [ReadLine (- 1), Read1 10 0, Read (- 1), ReadInto 4] r0") auto
  from seq [OF conjI [OF i rr]] e b0
  have 6: "reported (bar_log (progress_bar r6)) = 3" "bar_n (progress_bar r6) = 3"
    "bar_total (progress_bar r6) = 3"
    by simp_all
  from seek0 [of r0 1] o obtain r7 where s: "ProgressBufferedReader_seek r0 1 0 = (Inr 1, r7)"
    by auto
  from seek [OF s] b0
  have 7: "bar_n (progress_bar r7) = 1" "bar_log (progress_bar r7) = [SetPosition 1, Refresh]"
    by simp_all
  from i 1 2 3 4 5 rr 6 s 7 show ?thesis by blast
qed

text \<open>
  Claim C6 fails on the code. \<^verbatim>\<open>close\<close> and \<^verbatim>\<open>__exit__\<close> close the bar and leave the
  underlying source as it was: an open source stays open, and a read after \<^verbatim>\<open>__exit__\<close>
  still returns the file's bytes.
\<close>

theorem close_leaves_source_open:
  "raw_closed (ProgressBufferedReader_close r) = raw_closed r \<and>
   raw_closed (ProgressBufferedReader_exit r) = raw_closed r \<and>
   bar_closed (progress_bar (ProgressBufferedReader_close r)) \<and>
   bar_closed (progress_bar (ProgressBufferedReader_exit r)) \<and>
   BufferedReader_read (ProgressBufferedReader_exit
       \<lparr>raw_data = [0x61], raw_pos = 0, raw_closed = False, bufsize = 8192,
        progress_bar = \<lparr>bar_n = 0, bar_total = 1, bar_kwargs = (\<lambda>_. None), bar_closed = False,
                         bar_log = []\<rparr>\<rparr>) (- 1)
     = (Inr [0x61],
        \<lparr>raw_data = [0x61], raw_pos = 1, raw_closed = False, bufsize = 8192,
         progress_bar = \<lparr>bar_n = 0, bar_total = 1, bar_kwargs = (\<lambda>_. None), bar_closed = True,
                          bar_log = [CloseSink]\<rparr>\<rparr>)"
  by (simp add: ProgressBufferedReader_close_def ProgressBufferedReader_exit_def tqdm_close_def
      BufferedReader_read_def consume_def unread_def Let_def)

text \<open>
  Claim C8, as the code has it. With \<open>verbose\<close> true, every mode outside
  \<^verbatim>\<open>{"r", "rb"}\<close> raises \<^verbatim>\<open>ValueError\<close> and leaves the world as it was. With
  \<open>verbose\<close> false the mode is not checked by \<^verbatim>\<open>progress_open\<close>: the call is the
  built-in \<^verbatim>\<open>open(path, mode)\<close>.
\<close>

theorem progress_open_mode_check:
  "(verbose \<and> mode \<notin> {''r'', ''rb''} \<longrightarrow>
      progress_open w p mode encoding verbose buf_size kwargs = (Inl ValueError, w)) \<and>
   (\<not> verbose \<longrightarrow>
      progress_open w p mode encoding verbose buf_size kwargs
        = (case builtin_open w p mode of
             (Inl e, w') \<Rightarrow> (Inl e, w')
           | (Inr h, w') \<Rightarrow> (Inr (PlainFile h), w')))"
  by (simp add: progress_open_def)

text \<open>
  An instance of C8: mode \<^verbatim>\<open>w\<close> with the bar on, mode \<^verbatim>\<open>r\<close> with the bar off.
\<close>

theorem progress_open_mode_check_witness:
  "progress_open \<lparr>files = (\<lambda>_. None), io_log = []\<rparr> ''f'' ''w'' ''utf-8'' True 8192 (\<lambda>_. None)
     = (Inl ValueError, \<lparr>files = (\<lambda>_. None), io_log = []\<rparr>) \<and>
   progress_open \<lparr>files = (\<lambda>_. None), io_log = []\<rparr> ''f'' ''r'' ''utf-8'' False 8192 (\<lambda>_. None)
     = (Inl FileNotFoundError, \<lparr>files = (\<lambda>_. None), io_log = [Opened ''f'' ''r'']\<rparr>)"
proof -
  let ?w = "\<lparr>files = (\<lambda>_. None) :: path \<Rightarrow> byte list option, io_log = []\<rparr>"
  let ?kw = "(\<lambda>_. None) :: string \<Rightarrow> pyval option"
  have h: "True \<and> ''w'' \<notin> {''r'', ''rb''}" by simp
  from progress_open_mode_check [of True "''w''" ?w "''f''" "''utf-8''" 8192 ?kw] h
  have 1: "progress_open ?w ''f'' ''w'' ''utf-8'' True 8192 ?kw = (Inl ValueError, ?w)" by blast
  have b: "builtin_open ?w ''f'' ''r'' = (Inl FileNotFoundError, \<lparr>files = (\<lambda>_. None), io_log = [Opened ''f'' ''r'']\<rparr>)"
    by (simp add: builtin_open_def valid_mode_def Let_def)
  from progress_open_mode_check [of False "''r''" ?w "''f''" "''utf-8''" 8192 ?kw] b
  have 2: "progress_open ?w ''f'' ''r'' ''utf-8'' False 8192 ?kw
      = (Inl FileNotFoundError, \<lparr>files = (\<lambda>_. None), io_log = [Opened ''f'' ''r'']\<rparr>)"
    by simp
  from 1 2 show ?thesis by (intro conjI)
qed

text \<open>
  C8 as stated fails: with \<open>verbose\<close> false, mode \<^verbatim>\<open>w\<close> raises nothing; the file is
  created and opened for writing.
\<close>

theorem quiet_open_accepts_write_mode:
  "''w'' \<notin> {''r'', ''rb''} \<and>
   progress_open \<lparr>files = (\<lambda>_. None), io_log = []\<rparr> ''f'' ''w'' ''utf-8'' False 8192 (\<lambda>_. None)
     = (Inr (PlainFile \<lparr>h_path = ''f'', h_mode = ''w'', h_data = []\<rparr>),
        \<lparr>files = (\<lambda>_. None)(''f'' := Some []), io_log = [Opened ''f'' ''w'']\<rparr>)"
  by (simp add: progress_open_def builtin_open_def valid_mode_def Let_def)

section \<open>Claims about \<^verbatim>\<open>shut_up\<close>\<close>

lemma get_fd_set_fd: "get_fd (set_fd t i v) j = (if j = i then v else get_fd t j)"
  by (auto simp: get_fd_def set_fd_def nth_append)

lemma get_fd_lowest_free: "get_fd t (lowest_free t) = None"
proof (induction t)
  case Nil
  show ?case by (simp add: get_fd_def)
next
  case (Cons x t)
  then show ?case by (cases x) (auto simp: get_fd_def split: if_splits)
qed

lemma lowest_free_neq: "get_fd t i = Some x \<Longrightarrow> lowest_free t \<noteq> i"
  using get_fd_lowest_free [of t] by auto

lemma os_open_fd:
  assumes "os_open t f = (fd, t')"
  shows "get_fd t fd = None" and "\<And>j. get_fd t' j = (if j = fd then Some f else get_fd t j)"
  using assms by (auto simp: os_open_def get_fd_set_fd get_fd_lowest_free)

lemma os_dup_fd:
  assumes "get_fd t i = Some f"
  shows "\<exists>fd t'. os_dup t i = (Inr fd, t') \<and> get_fd t fd = None \<and>
           (\<forall>j. get_fd t' j = (if j = fd then Some f else get_fd t j))"
  using assms by (simp add: os_dup_def get_fd_set_fd get_fd_lowest_free)

lemma os_dup2_fd:
  assumes "get_fd t i = Some f"
  shows "\<exists>t'. os_dup2 t i k = (None, t') \<and> (\<forall>j. get_fd t' j = (if j = k then Some f else get_fd t j))"
  using assms by (simp add: os_dup2_def get_fd_set_fd)

lemma os_close_fd:
  assumes "get_fd t i = Some f"
  shows "\<exists>t'. os_close t i = (None, t') \<and> (\<forall>j. get_fd t' j = (if j = i then None else get_fd t j))"
  using assms by (simp add: os_close_def get_fd_set_fd)

text \<open>One descriptor: redirect and restore.\<close>

lemma redirect_one:
  assumes o: "get_fd t fd = Some f" and keep: "get_fd t other = Some g" and ne: "other \<noteq> fd"
  shows "\<exists>nfd ofd t1 t2.
      open_nulls [fd] t = ([nfd], t1) \<and> dup_all [fd] t1 = (Inr [ofd], t2) \<and>
      nfd \<noteq> fd \<and> ofd \<noteq> fd \<and> nfd \<noteq> ofd \<and> nfd \<noteq> other \<and> ofd \<noteq> other \<and>
      (\<forall>j. get_fd t2 j = (if j = ofd then Some f else if j = nfd then Some devnull else get_fd t j))"
proof -
  obtain nfd t1 where op: "os_open t devnull = (nfd, t1)" by (cases "os_open t devnull")
  note o1 = os_open_fd [OF op]
  have n: "nfd \<noteq> fd" "nfd \<noteq> other" using o1(1) o keep by auto
  have "get_fd t1 fd = Some f" using o1(2) n o by simp
  from os_dup_fd [OF this] obtain ofd t2 where d: "os_dup t1 fd = (Inr ofd, t2)"
    and dn: "get_fd t1 ofd = None"
    and d2: "\<forall>j. get_fd t2 j = (if j = ofd then Some f else get_fd t1 j)"
    by blast
  have on: "ofd \<noteq> fd" "ofd \<noteq> nfd" "ofd \<noteq> other"
    using dn o1(2) o keep n by (auto split: if_splits)
  have "open_nulls [fd] t = ([nfd], t1)" using op by simp
  moreover have "dup_all [fd] t1 = (Inr [ofd], t2)" using d by simp
  moreover have "\<forall>j. get_fd t2 j = (if j = ofd then Some f else if j = nfd then Some devnull else get_fd t j)"
    using d2 o1(2) by simp
  ultimately show ?thesis using n on by blast
qed

lemma single_scope:
  assumes o: "get_fd t fd = Some f" and keep: "get_fd t other = Some g" and ne: "other \<noteq> fd"
  shows "\<exists>nfd ofd t1 t2 t3 t4.
      open_nulls [fd] t = ([nfd], t1) \<and> dup_all [fd] t1 = (Inr [ofd], t2) \<and>
      redirect_all [(nfd, fd)] t2 = (None, t3) \<and>
      get_fd t3 fd = Some devnull \<and> get_fd t3 other = Some g \<and>
      restore_all [(nfd, ofd, fd)] t3 = (None, t4) \<and>
      get_fd t4 fd = Some f \<and> get_fd t4 other = Some g"
proof -
  from redirect_one [OF assms] obtain nfd ofd t1 t2 where
    a: "open_nulls [fd] t = ([nfd], t1)" "dup_all [fd] t1 = (Inr [ofd], t2)"
    and n: "nfd \<noteq> fd" "ofd \<noteq> fd" "nfd \<noteq> ofd" "nfd \<noteq> other" "ofd \<noteq> other"
    and g2: "\<forall>j. get_fd t2 j = (if j = ofd then Some f else if j = nfd then Some devnull else get_fd t j)"
    by blast
  have "get_fd t2 nfd = Some devnull" using g2 n by simp
  from os_dup2_fd [OF this, of fd] obtain t3 where
    r: "os_dup2 t2 nfd fd = (None, t3)"
    and g3: "\<forall>j. get_fd t3 j = (if j = fd then Some devnull else get_fd t2 j)"
    by blast
  have "get_fd t3 ofd = Some f" using g3 g2 n by simp
  from os_dup2_fd [OF this, of fd] obtain t3' where
    r2: "os_dup2 t3 ofd fd = (None, t3')"
    and g3': "\<forall>j. get_fd t3' j = (if j = fd then Some f else get_fd t3 j)"
    by blast
  have "get_fd t3' nfd = Some devnull" using g3' g3 g2 n by simp
  from os_close_fd [OF this] obtain t4 where
    c: "os_close t3' nfd = (None, t4)"
    and g4: "\<forall>j. get_fd t4 j = (if j = nfd then None else get_fd t3' j)"
    by blast
  have "redirect_all [(nfd, fd)] t2 = (None, t3)" using r by simp
  moreover have "restore_all [(nfd, ofd, fd)] t3 = (None, t4)" using r2 c by simp
  moreover have "get_fd t3 fd = Some devnull" "get_fd t3 other = Some g"
    using g3 g2 n ne keep by simp_all
  moreover have "get_fd t4 fd = Some f" "get_fd t4 other = Some g"
    using g4 g3' g3 g2 n ne keep by simp_all
  ultimately show ?thesis using a by blast
qed

lemma double_scope:
  assumes o1: "get_fd t fd1 = Some f1" and o2: "get_fd t fd2 = Some f2" and ne: "fd1 \<noteq> fd2"
  shows "\<exists>n1 n2 u1 u2 t2 t4 t6 t10.
      open_nulls [fd1, fd2] t = ([n1, n2], t2) \<and> dup_all [fd1, fd2] t2 = (Inr [u1, u2], t4) \<and>
      redirect_all [(n1, fd1), (n2, fd2)] t4 = (None, t6) \<and>
      get_fd t6 fd1 = Some devnull \<and> get_fd t6 fd2 = Some devnull \<and>
      restore_all [(n1, u1, fd1), (n2, u2, fd2)] t6 = (None, t10) \<and>
      get_fd t10 fd1 = Some f1 \<and> get_fd t10 fd2 = Some f2"
proof -
  obtain n1 t1 where op1: "os_open t devnull = (n1, t1)" by (cases "os_open t devnull")
  note a1 = os_open_fd [OF op1]
  obtain n2 t2 where op2: "os_open t1 devnull = (n2, t2)" by (cases "os_open t1 devnull")
  note a2 = os_open_fd [OF op2]
  have d1: "n1 \<noteq> fd1" "n1 \<noteq> fd2" using a1(1) o1 o2 by auto
  have d2: "n2 \<noteq> fd1" "n2 \<noteq> fd2" "n2 \<noteq> n1" using a2(1) a1(2) o1 o2 d1 by (auto split: if_splits)
  have g2: "\<forall>j. get_fd t2 j = (if j = n2 \<or> j = n1 then Some devnull else get_fd t j)"
    using a1(2) a2(2) by simp
  have "get_fd t2 fd1 = Some f1" using g2 d1 d2 o1 by simp
  from os_dup_fd [OF this] obtain u1 t3 where du1: "os_dup t2 fd1 = (Inr u1, t3)"
    and u1n: "get_fd t2 u1 = None"
    and g3: "\<forall>j. get_fd t3 j = (if j = u1 then Some f1 else get_fd t2 j)"
    by blast
  have d3: "u1 \<noteq> fd1" "u1 \<noteq> fd2" "u1 \<noteq> n1" "u1 \<noteq> n2"
    using u1n g2 o1 o2 d1 d2 by (auto split: if_splits)
  have "get_fd t3 fd2 = Some f2" using g3 g2 d1 d2 d3 o2 by simp
  from os_dup_fd [OF this] obtain u2 t4 where du2: "os_dup t3 fd2 = (Inr u2, t4)"
    and u2n: "get_fd t3 u2 = None"
    and g4: "\<forall>j. get_fd t4 j = (if j = u2 then Some f2 else get_fd t3 j)"
    by blast
  have d4: "u2 \<noteq> fd1" "u2 \<noteq> fd2" "u2 \<noteq> n1" "u2 \<noteq> n2" "u2 \<noteq> u1"
    using u2n g3 g2 o1 o2 d1 d2 d3 by (auto split: if_splits)
  have "get_fd t4 n1 = Some devnull" using g4 g3 g2 d1 d2 d3 d4 by simp
  from os_dup2_fd [OF this, of fd1] obtain t5 where r1: "os_dup2 t4 n1 fd1 = (None, t5)"
    and g5: "\<forall>j. get_fd t5 j = (if j = fd1 then Some devnull else get_fd t4 j)"
    by blast
  have "get_fd t5 n2 = Some devnull" using g5 g4 g3 g2 d1 d2 d3 d4 by simp
  from os_dup2_fd [OF this, of fd2] obtain t6 where r2: "os_dup2 t5 n2 fd2 = (None, t6)"
    and g6: "\<forall>j. get_fd t6 j = (if j = fd2 then Some devnull else get_fd t5 j)"
    by blast
  have "get_fd t6 u1 = Some f1" using g6 g5 g4 g3 d1 d2 d3 d4 by simp
  from os_dup2_fd [OF this, of fd1] obtain t7 where s1: "os_dup2 t6 u1 fd1 = (None, t7)"
    and g7: "\<forall>j. get_fd t7 j = (if j = fd1 then Some f1 else get_fd t6 j)"
    by blast
  have "get_fd t7 n1 = Some devnull" using g7 g6 g5 g4 g3 g2 d1 d2 d3 d4 by simp
  from os_close_fd [OF this] obtain t8 where c1: "os_close t7 n1 = (None, t8)"
    and g8: "\<forall>j. get_fd t8 j = (if j = n1 then None else get_fd t7 j)"
    by blast
  have "get_fd t8 u2 = Some f2" using g8 g7 g6 g5 g4 d1 d2 d3 d4 by simp
  from os_dup2_fd [OF this, of fd2] obtain t9 where s2: "os_dup2 t8 u2 fd2 = (None, t9)"
    and g9: "\<forall>j. get_fd t9 j = (if j = fd2 then Some f2 else get_fd t8 j)"
    by blast
  have "get_fd t9 n2 = Some devnull" using g9 g8 g7 g6 g5 g4 g3 g2 d1 d2 d3 d4 by simp
  from os_close_fd [OF this] obtain t10 where c2: "os_close t9 n2 = (None, t10)"
    and g10: "\<forall>j. get_fd t10 j = (if j = n2 then None else get_fd t9 j)"
    by blast
  have "open_nulls [fd1, fd2] t = ([n1, n2], t2)" using op1 op2 by simp
  moreover have "dup_all [fd1, fd2] t2 = (Inr [u1, u2], t4)" using du1 du2 by simp
  moreover have "redirect_all [(n1, fd1), (n2, fd2)] t4 = (None, t6)" using r1 r2 by simp
  moreover have "restore_all [(n1, u1, fd1), (n2, u2, fd2)] t6 = (None, t10)"
    using s1 c1 s2 c2 by simp
  moreover have "get_fd t6 fd1 = Some devnull" "get_fd t6 fd2 = Some devnull"
    using g6 g5 ne by simp_all
  moreover have "get_fd t10 fd1 = Some f1" "get_fd t10 fd2 = Some f2"
    using g10 g9 g8 g7 d1 d2 ne by simp_all
  ultimately show ?thesis by blast
qed

text \<open>
  Claim C9, as the code has it. When descriptors 1 and 2 are open, entering the scope
  succeeds and points each selected descriptor at the null device, leaving the other as
  it was; leaving the scope after the body has returned normally points both descriptors
  at their original files again. When the body raises, leaving the scope changes nothing
  in the descriptor table and passes the exception on.
\<close>

theorem shut_up_restores_on_return:
  "get_fd t 1 = Some out1 \<and> get_fd t 2 = Some out2 \<longrightarrow>
   (\<exists>l t1 t2.
      shut_up_enter stderr stdout t = (Inr l, t1) \<and>
      get_fd t1 1 = Some (if stdout then devnull else out1) \<and>
      get_fd t1 2 = Some (if stderr then devnull else out2) \<and>
      shut_up_exit Returned l t1 = (None, t2) \<and>
      get_fd t2 1 = Some out1 \<and> get_fd t2 2 = Some out2 \<and>
      shut_up_exit (Raised e) l t1 = (Some e, t1))"
proof
  assume a: "get_fd t 1 = Some out1 \<and> get_fd t 2 = Some out2"
  then have o1: "get_fd t 1 = Some out1" and o2: "get_fd t 2 = Some out2" by simp_all
  have ne: "(1::nat) \<noteq> 2" "(2::nat) \<noteq> 1" by simp_all
  consider (both) "stdout" "stderr" | (out) "stdout" "\<not> stderr" | (err) "\<not> stdout" "stderr"
    | (none) "\<not> stdout" "\<not> stderr"
    by blast
  then show "\<exists>l t1 t2.
      shut_up_enter stderr stdout t = (Inr l, t1) \<and>
      get_fd t1 1 = Some (if stdout then devnull else out1) \<and>
      get_fd t1 2 = Some (if stderr then devnull else out2) \<and>
      shut_up_exit Returned l t1 = (None, t2) \<and>
      get_fd t2 1 = Some out1 \<and> get_fd t2 2 = Some out2 \<and>
      shut_up_exit (Raised e) l t1 = (Some e, t1)"
  proof cases
    case both
    from double_scope [OF o1 o2 ne(1)] obtain n1 n2 u1 u2 t2 t4 t6 t10 where
      "open_nulls [1, 2] t = ([n1, n2], t2)" "dup_all [1, 2] t2 = (Inr [u1, u2], t4)"
      "redirect_all [(n1, 1), (n2, 2)] t4 = (None, t6)"
      "get_fd t6 1 = Some devnull" "get_fd t6 2 = Some devnull"
      "restore_all [(n1, u1, 1), (n2, u2, 2)] t6 = (None, t10)"
      "get_fd t10 1 = Some out1" "get_fd t10 2 = Some out2"
      by blast
    with both show ?thesis
      by (simp add: shut_up_enter_def shut_up_exit_def)
  next
    case out
    from single_scope [OF o1 o2 ne(2)] obtain nfd ofd t1 t2 t3 t4 where
      "open_nulls [1] t = ([nfd], t1)" "dup_all [1] t1 = (Inr [ofd], t2)"
      "redirect_all [(nfd, 1)] t2 = (None, t3)"
      "get_fd t3 1 = Some devnull" "get_fd t3 2 = Some out2"
      "restore_all [(nfd, ofd, 1)] t3 = (None, t4)"
      "get_fd t4 1 = Some out1" "get_fd t4 2 = Some out2"
      by blast
    with out show ?thesis
      by (simp add: shut_up_enter_def shut_up_exit_def)
  next
    case err
    from single_scope [OF o2 o1 ne(1)] obtain nfd ofd t1 t2 t3 t4 where
      "open_nulls [2] t = ([nfd], t1)" "dup_all [2] t1 = (Inr [ofd], t2)"
      "redirect_all [(nfd, 2)] t2 = (None, t3)"
      "get_fd t3 2 = Some devnull" "get_fd t3 1 = Some out1"
      "restore_all [(nfd, ofd, 2)] t3 = (None, t4)"
      "get_fd t4 2 = Some out2" "get_fd t4 1 = Some out1"
      by blast
    with err show ?thesis
      by (simp add: shut_up_enter_def shut_up_exit_def)
  next
    case none
    with o1 o2 show ?thesis
      by (simp add: shut_up_enter_def shut_up_exit_def)
  qed
qed

text \<open>
  An instance of C9: \<^verbatim>\<open>shut_up(stderr=True)\<close> with descriptors 0, 1, 2 on a terminal.
\<close>

theorem shut_up_restores_on_return_witness:
  "get_fd [Some ''tty'', Some ''tty'', Some ''tty''] 1 = Some ''tty'' \<and>
   shut_up_enter True False [Some ''tty'', Some ''tty'', Some ''tty'']
     = (Inr \<lparr>fds = [2], null_fds = [3], output_fds = [4]\<rparr>,
        [Some ''tty'', Some ''tty'', Some ''/dev/null'', Some ''/dev/null'', Some ''tty'']) \<and>
   (\<exists>l t1 t2.
      shut_up_enter True False [Some ''tty'', Some ''tty'', Some ''tty''] = (Inr l, t1) \<and>
      get_fd t1 1 = Some ''tty'' \<and> get_fd t1 2 = Some devnull \<and>
      shut_up_exit Returned l t1 = (None, t2) \<and>
      get_fd t2 1 = Some ''tty'' \<and> get_fd t2 2 = Some ''tty'')"
proof -
  let ?t = "[Some ''tty'', Some ''tty'', Some ''tty'']"
  have h: "get_fd ?t 1 = Some ''tty'' \<and> get_fd ?t 2 = Some ''tty''"
    by (simp add: get_fd_def)
  have e: "shut_up_enter True False ?t
     = (Inr \<lparr>fds = [2], null_fds = [3], output_fds = [4]\<rparr>,
        [Some ''tty'', Some ''tty'', Some ''/dev/null'', Some ''/dev/null'', Some ''tty''])"
    by code_simp
  from shut_up_restores_on_return [of ?t "''tty''" "''tty''" True False ValueError] h
  have "\<exists>l t1 t2.
      shut_up_enter True False ?t = (Inr l, t1) \<and>
      get_fd t1 1 = Some ''tty'' \<and> get_fd t1 2 = Some devnull \<and>
      shut_up_exit Returned l t1 = (None, t2) \<and>
      get_fd t2 1 = Some ''tty'' \<and> get_fd t2 2 = Some ''tty''"
    by auto
  with h e show ?thesis by blast
qed

text \<open>
  C9 as stated fails: when the body raises, descriptor 2 still refers to the null device
  after the \<^verbatim>\<open>with\<close> statement. After a normal return it refers to the terminal again.
\<close>

theorem shut_up_exception_leaves_redirect:
  "with_shut_up True False (\<lambda>_. Raised ValueError) [Some ''tty'', Some ''tty'', Some ''tty'']
     = (Some ValueError,
        [Some ''tty'', Some ''tty'', Some ''/dev/null'', Some ''/dev/null'', Some ''tty'']) \<and>
   with_shut_up True False (\<lambda>_. Returned) [Some ''tty'', Some ''tty'', Some ''tty'']
     = (None, [Some ''tty'', Some ''tty'', Some ''tty'', None, Some ''tty''])"
  by code_simp

end
